theory Spec2Isabelle
  imports
    Complex_Main
    "HOL-Library.Log_Nat"
    "HOL-Library.Multiset"
    "HOL-Library.Char_ord"
    "HOL-Library.List_Lexorder"
    "HOL-Library.Product_Lexorder"
begin

section \<open>Python values used by Storage.py\<close>

subsection \<open>Floats\<close>

text \<open>
  A finite Python float is a binary64 number, hence a rational. The arithmetic of the
  source that can round (true division of two ints, a float product, a float literal) is
  the exact rational result rounded to 53 significant bits, ties to even. \<open>rhe\<close> rounds
  a rational to the nearest integer, ties to even; \<open>expo x\<close> is the binary exponent of a
  positive \<open>x\<close> (\<open>2 powi expo x \<le> x < 2 powi (expo x + 1)\<close>); \<open>fl\<close> rounds to 53 bits.
  The exponent range is not bounded: the quotients and products of the source (file sizes,
  list positions, percentages) are far from the overflow and underflow thresholds.
\<close>

definition rhe :: "rat \<Rightarrow> int" where
  "rhe q = (let f = \<lfloor>q\<rfloor>; r = q - of_int f in
            if r < 1/2 then f else if 1/2 < r then f + 1 else if even f then f else f + 1)"

definition expo :: "rat \<Rightarrow> int" where
  "expo x = (if 1 \<le> x then int (floorlog 2 (nat \<lfloor>x\<rfloor>)) - 1
             else - int (floorlog 2 (nat (\<lceil>1 / x\<rceil> - 1))))"

definition fl :: "rat \<Rightarrow> rat" where
  "fl x = (if x = 0 then 0
           else let u = 2 powi (expo \<bar>x\<bar> - 52) in sgn x * of_int (rhe (\<bar>x\<bar> / u)) * u)"

text \<open>\<open>int(x)\<close> on a float truncates towards zero.\<close>

definition py_int :: "rat \<Rightarrow> int" where
  "py_int x = (if 0 \<le> x then \<lfloor>x\<rfloor> else \<lceil>x\<rceil>)"

text \<open>
  The threshold reaches the thread from \<open>float(text)\<close>, which can also produce an
  infinity or a NaN. \<open>x > t\<close> for a finite \<open>x\<close> and \<open>t or 1.0\<close> are written out for
  these values: only zero is falsy, and every comparison with NaN is false.
\<close>

datatype pyfloat = Fin rat | PosInf | NegInf | NaN

fun py_gt :: "rat \<Rightarrow> pyfloat \<Rightarrow> bool" where
  "py_gt x (Fin t) = (t < x)"
| "py_gt x PosInf = False"
| "py_gt x NegInf = True"
| "py_gt x NaN = False"

definition py_or :: "pyfloat \<Rightarrow> pyfloat \<Rightarrow> pyfloat" where
  "py_or a b = (if a = Fin 0 then b else a)"

subsection \<open>Strings\<close>

text \<open>
  Names, paths and input fields are ASCII strings. \<open>isspace\<close> is the ASCII part of
  \<open>str.isspace\<close> (tab to carriage return, the four separators 28 to 31, and space);
  \<open>lower\<close> maps \<open>A\<close> to \<open>Z\<close> onto \<open>a\<close> to \<open>z\<close>.
\<close>

definition isspace :: "char \<Rightarrow> bool" where
  "isspace c = (let n = (of_char c :: nat) in (9 \<le> n \<and> n \<le> 13) \<or> (28 \<le> n \<and> n \<le> 32))"

definition lower_char :: "char \<Rightarrow> char" where
  "lower_char c = (let n = (of_char c :: nat) in if 65 \<le> n \<and> n \<le> 90 then char_of (n + 32) else c)"

definition lower :: "string \<Rightarrow> string" where
  "lower s = map lower_char s"

definition strip :: "string \<Rightarrow> string" where
  "strip s = rev (dropWhile isspace (rev (dropWhile isspace s)))"

definition endswith :: "string \<Rightarrow> string \<Rightarrow> bool" where
  "endswith s suffix = (length suffix \<le> length s \<and> drop (length s - length suffix) s = suffix)"

text \<open>\<open>text.split(",")\<close>: the fields between commas; the empty text gives one empty field.\<close>

fun split_comma :: "string \<Rightarrow> string list" where
  "split_comma [] = [[]]"
| "split_comma (c # cs) =
     (if c = CHR '','' then [] # split_comma cs
      else (case split_comma cs of
              w # ws \<Rightarrow> (c # w) # ws
            | [] \<Rightarrow> [[c]]))"

text \<open>\<open>str(n)\<close> for an int, and the format \<open>f"{x:.2f}"\<close>: the exact value rounded to two
  decimals, ties to even, printed with a sign, the integer digits, a point and two digits.\<close>

definition digit_char :: "nat \<Rightarrow> char" where
  "digit_char d = char_of (48 + d)"

fun str_nat :: "nat \<Rightarrow> string" where
  "str_nat n = (if n < 10 then [digit_char n] else str_nat (n div 10) @ [digit_char (n mod 10)])"

definition str_int :: "int \<Rightarrow> string" where
  "str_int k = (if k < 0 then CHR ''-'' # str_nat (nat (- k)) else str_nat (nat k))"

definition format_2f :: "rat \<Rightarrow> string" where
  "format_2f x =
     (let h = nat (rhe (\<bar>x\<bar> * 100));
          body = str_nat (h div 100) @ [CHR ''.'', digit_char (h mod 100 div 10), digit_char (h mod 10)]
      in if x < 0 then CHR ''-'' # body else body)"

section \<open>FileProcessorThread\<close>

subsection \<open>The thread object and its control surface\<close>

record file_processor_thread =
  root_directory :: string
  threshold_gb :: pyfloat
  extensions :: "string list"
  cancel_requested :: bool
  paused :: bool

text \<open>\<open>__init__\<close> (lines 26 to 32).\<close>

definition FileProcessorThread :: "string \<Rightarrow> pyfloat \<Rightarrow> string list \<Rightarrow> file_processor_thread" where
  "FileProcessorThread root_dir threshold exts =
     \<lparr> root_directory = root_dir,
       threshold_gb = py_or threshold (Fin 1),
       extensions = map (\<lambda>ext. lower (strip ext)) (filter (\<lambda>ext. strip ext \<noteq> []) exts),
       cancel_requested = False,
       paused = False \<rparr>"

definition cancel :: "file_processor_thread \<Rightarrow> file_processor_thread" where
  "cancel thr = thr\<lparr>cancel_requested := True\<rparr>"

definition pause :: "file_processor_thread \<Rightarrow> file_processor_thread" where
  "pause thr = thr\<lparr>paused := True\<rparr>"

definition resume :: "file_processor_thread \<Rightarrow> file_processor_thread" where
  "resume thr = thr\<lparr>paused := False\<rparr>"

text \<open>The extension test of \<open>run\<close> (lines 53 to 55): a file is skipped when the filter is
  non-empty and no entry is a suffix of the lowercased name.\<close>

definition extension_ok :: "file_processor_thread \<Rightarrow> string \<Rightarrow> bool" where
  "extension_ok thr filename =
     (\<not> (extensions thr \<noteq> [] \<and> \<not> list_ex (\<lambda>ext. endswith (lower filename) ext) (extensions thr)))"

section \<open>FileAnalyzerUI.start\_scan\<close>

text \<open>
  \<open>start_scan\<close> (lines 212 to 230) up to the construction of the thread. \<open>float_of\<close> is
  Python's \<open>float\<close> on the text of the size field, \<open>None\<close> for a \<open>ValueError\<close>. The folder
  attribute is \<open>None\<close> while no folder was selected. The left results are the status texts
  of the early returns. The literal \<open>0.1\<close> is the double nearest to one tenth.
\<close>

definition start_scan ::
  "(string \<Rightarrow> pyfloat option) \<Rightarrow> string option \<Rightarrow> string \<Rightarrow> string \<Rightarrow> string + file_processor_thread" where
  "start_scan float_of folder_path size_text ext_text =
     (case folder_path of
        None \<Rightarrow> Inl ''Please select a folder.''
      | Some folder \<Rightarrow>
          if folder = [] then Inl ''Please select a folder.''
          else (case (if size_text \<noteq> [] then float_of size_text else Some (Fin (fl (1 / 10)))) of
                  None \<Rightarrow> Inl ''Invalid size value.''
                | Some threshold \<Rightarrow> Inr (FileProcessorThread folder threshold (split_comma ext_text))))"

section \<open>FileProcessorThread.run\<close>

subsection \<open>The file system\<close>

text \<open>
  What \<open>run\<close> asks of the operating system: \<open>os.walk(root)\<close> as the list of its
  \<open>(dirpath, dirnames, filenames)\<close> triples, \<open>os.path.abspath\<close>, \<open>os.path.exists\<close> and
  \<open>os.path.getsize\<close>, which gives \<open>None\<close> where the call raises. \<open>join\<close> is
  \<open>posixpath.join\<close> on two components.
\<close>

record filesystem =
  walk :: "string \<Rightarrow> (string \<times> string list \<times> string list) list"
  abspath :: "string \<Rightarrow> string"
  exists :: "string \<Rightarrow> bool"
  getsize :: "string \<Rightarrow> nat option"

definition join :: "string \<Rightarrow> string \<Rightarrow> string" where
  "join a b =
     (if b \<noteq> [] \<and> hd b = CHR ''/'' then b
      else if a = [] \<or> last a = CHR ''/'' then a @ b
      else a @ ''/'' @ b)"

text \<open>\<open>get_file_size\<close> (lines 34 to 39): the pair \<open>(None, None)\<close> of the source is \<open>None\<close>.\<close>

definition get_file_size :: "filesystem \<Rightarrow> string \<Rightarrow> (rat \<times> rat) option" where
  "get_file_size fs file_path =
     (case getsize fs file_path of
        None \<Rightarrow> None
      | Some sz \<Rightarrow> Some (fl (of_nat sz / 1024 ^ 2), fl (of_nat sz / 1024 ^ 3)))"

subsection \<open>Control calls from the consumer\<close>

text \<open>
  \<open>cancel\<close>, \<open>pause\<close> and \<open>resume\<close> are called from the user-interface thread while \<open>run\<close>
  executes. \<open>run\<close> sees their effect only where it reads a flag, so a schedule gives, for
  the \<open>t\<close>-th flag read of the run (counted from 0), the calls made since the read before;
  \<open>deliver\<close> applies them in order just before the read.
\<close>

datatype control = Cancel | Pause | Resume

fun call :: "control \<Rightarrow> file_processor_thread \<Rightarrow> file_processor_thread" where
  "call Cancel thr = cancel thr"
| "call Pause thr = pause thr"
| "call Resume thr = resume thr"

definition deliver :: "control list \<Rightarrow> file_processor_thread \<Rightarrow> file_processor_thread" where
  "deliver cs thr = fold call cs thr"

type_synonym schedule = "nat \<Rightarrow> control list"

subsection \<open>Signals\<close>

text \<open>
  The signals of the thread are its event stream: \<open>live_file_signal\<close> is the spec's
  FileDiscovered, \<open>progress_update\<close> its Progress, \<open>result_ready\<close> its Completed (the
  consumer reports the length of the list) and \<open>cancelled\<close> its Cancelled.
\<close>

type_synonym row = "string \<times> string \<times> string \<times> string"

type_synonym candidate = "string \<times> string \<times> rat \<times> rat"

datatype signal =
    progress_update int string
  | result_ready "row list"
  | cancelled
  | live_file_signal row
  | eta_signal string

subsection \<open>Enumeration (lines 45 to 65)\<close>

text \<open>The body of the inner loop after the cancel check, for one file name.\<close>

definition examine ::
  "filesystem \<Rightarrow> file_processor_thread \<Rightarrow> string \<Rightarrow> string \<Rightarrow> candidate list \<Rightarrow> candidate list" where
  "examine fs thr dirpath filename files_to_process =
     (let file_path = abspath fs (join dirpath filename) in
      if \<not> extension_ok thr filename then files_to_process
      else if \<not> exists fs file_path then files_to_process
      else (case get_file_size fs file_path of
              None \<Rightarrow> files_to_process
            | Some (size_mb, size_gb) \<Rightarrow>
                if py_gt size_gb (threshold_gb thr)
                then files_to_process @ [(filename, file_path, size_mb, size_gb)]
                else files_to_process))"

text \<open>
  The inner loop over the file names of one directory; the state is the number of flag
  reads so far, the thread object and \<open>files_to_process\<close>. \<open>None\<close> is the return after
  \<open>cancelled.emit()\<close>.
\<close>

fun scan_filenames ::
  "schedule \<Rightarrow> filesystem \<Rightarrow> string \<Rightarrow> string list \<Rightarrow>
   nat \<times> file_processor_thread \<times> candidate list \<Rightarrow>
   (nat \<times> file_processor_thread \<times> candidate list) option" where
  "scan_filenames env fs dirpath [] st = Some st"
| "scan_filenames env fs dirpath (filename # filenames) (t, thr, files_to_process) =
     (let thr' = deliver (env t) thr in
      if cancel_requested thr' then None
      else scan_filenames env fs dirpath filenames
             (Suc t, thr', examine fs thr' dirpath filename files_to_process))"

fun scan_walk ::
  "schedule \<Rightarrow> filesystem \<Rightarrow> (string \<times> string list \<times> string list) list \<Rightarrow>
   nat \<times> file_processor_thread \<times> candidate list \<Rightarrow>
   (nat \<times> file_processor_thread \<times> candidate list) option" where
  "scan_walk env fs [] st = Some st"
| "scan_walk env fs ((dirpath, dirnames, filenames) # dirs) st =
     (case scan_filenames env fs dirpath filenames st of
        None \<Rightarrow> None
      | Some st' \<Rightarrow> scan_walk env fs dirs st')"

subsection \<open>Emission (lines 67 to 93)\<close>

text \<open>Line 87 and line 86; \<open>elapsed\<close> is the float \<open>time.time() - start_time\<close>.\<close>

definition progress_percent :: "nat \<Rightarrow> nat \<Rightarrow> int" where
  "progress_percent i total_files = py_int (fl (fl (of_nat (i + 1) / of_nat total_files) * 100))"

definition remaining :: "rat \<Rightarrow> nat \<Rightarrow> nat \<Rightarrow> int" where
  "remaining elapsed i total_files =
     py_int (fl (fl (elapsed / of_nat (i + 1)) * of_int (int total_files - int i - 1)))"

definition row_of :: "candidate \<Rightarrow> row" where
  "row_of c = (case c of (filename, file_path, size_mb, size_gb) \<Rightarrow>
                 (filename, file_path, format_2f size_mb, format_2f size_gb))"

text \<open>The three signals of one iteration (lines 83, 88 and 89). The calls of
  \<open>processEvents\<close> and \<open>msleep\<close> that follow them emit nothing.\<close>

definition emit_signals :: "rat \<Rightarrow> nat \<Rightarrow> nat \<Rightarrow> candidate \<Rightarrow> signal list" where
  "emit_signals elapsed i total_files c =
     [live_file_signal (row_of c),
      progress_update (progress_percent i total_files)
        (fst c @ '' | '' @ str_nat (i + 1) @ '' of '' @ str_nat total_files
           @ '' | ~'' @ str_int (remaining elapsed i total_files) @ ''s left''),
      eta_signal (''ETA: ~'' @ str_int (remaining elapsed i total_files) @ ''s'')]"

text \<open>
  \<open>while self.paused: time.sleep(0.1)\<close> (lines 76 and 77). Each poll reads \<open>paused\<close>
  once; the loop gives \<open>None\<close> when it is still polling after \<open>fuel\<close> polls.
\<close>

fun pause_wait ::
  "nat \<Rightarrow> schedule \<Rightarrow> nat \<Rightarrow> file_processor_thread \<Rightarrow> (nat \<times> file_processor_thread) option" where
  "pause_wait 0 env t thr = None"
| "pause_wait (Suc fuel) env t thr =
     (let thr' = deliver (env t) thr in
      if paused thr' then pause_wait fuel env (Suc t) thr' else Some (Suc t, thr'))"

datatype loop_end = Finished "row list" | Stopped | Blocked

text \<open>
  The loop over \<open>enumerate(files_to_process)\<close>. \<open>clock i\<close> is the elapsed time read in
  iteration \<open>i\<close>. \<open>Finished results\<close> is the normal end of the loop, \<open>Stopped\<close> the return
  after \<open>cancelled.emit()\<close>, \<open>Blocked\<close> a pause wait that outlasts the fuel.
\<close>

fun emit_files ::
  "nat \<Rightarrow> schedule \<Rightarrow> (nat \<Rightarrow> rat) \<Rightarrow> nat \<Rightarrow> candidate list \<Rightarrow> nat \<Rightarrow>
   nat \<times> file_processor_thread \<Rightarrow> row list \<Rightarrow> signal list \<times> loop_end" where
  "emit_files fuel env clock total_files [] i st results = ([], Finished results)"
| "emit_files fuel env clock total_files (c # cs) i (t, thr) results =
     (case pause_wait fuel env t thr of
        None \<Rightarrow> ([], Blocked)
      | Some (t1, thr1) \<Rightarrow>
          (let thr2 = deliver (env t1) thr1 in
           if cancel_requested thr2 then ([cancelled], Stopped)
           else (case emit_files fuel env clock total_files cs (Suc i) (Suc t1, thr2)
                        (results @ [row_of c]) of
                   (sigs, e) \<Rightarrow> (emit_signals (clock i) i total_files c @ sigs, e))))"

datatype status = Returned | Waiting

text \<open>
  \<open>run\<close>: the signals emitted, and whether the method returned or is still in a pause
  wait when the fuel is used up. \<open>enumerate_files\<close> is the first loop nest, over
  \<open>os.walk(self.root_directory)\<close>.
\<close>

definition enumerate_files ::
  "schedule \<Rightarrow> filesystem \<Rightarrow> file_processor_thread \<Rightarrow>
   (nat \<times> file_processor_thread \<times> candidate list) option" where
  "enumerate_files env fs thr = scan_walk env fs (walk fs (root_directory thr)) (0, thr, [])"

definition run ::
  "nat \<Rightarrow> schedule \<Rightarrow> (nat \<Rightarrow> rat) \<Rightarrow> filesystem \<Rightarrow> file_processor_thread \<Rightarrow> signal list \<times> status" where
  "run fuel env clock fs thr =
     (case enumerate_files env fs thr of
        None \<Rightarrow> ([cancelled], Returned)
      | Some (t, thr1, files_to_process) \<Rightarrow>
          (let total_files = length files_to_process in
           if total_files = 0
           then ([progress_update 100 ''No files found above threshold.'', result_ready []], Returned)
           else (case emit_files fuel env clock total_files files_to_process 0 (t, thr1) [] of
                   (sigs, Finished results) \<Rightarrow> (sigs @ [result_ready results], Returned)
                 | (sigs, Stopped) \<Rightarrow> (sigs, Returned)
                 | (sigs, Blocked) \<Rightarrow> (sigs, Waiting))))"

section \<open>FileAnalyzerUI: aggregation and ranking\<close>

subsection \<open>add\_row (lines 250 to 264)\<close>

text \<open>
  A \<open>QTreeWidgetItem\<close> is its column texts and its children; \<open>addChild\<close> appends.
  \<open>folder_items\<close> is the dictionary of the source, in insertion order; the top-level items
  of the table are the same objects in the same order. \<open>dirname\<close> and \<open>basename\<close> are those
  of \<open>posixpath\<close>. The red background of a child above 5 GB is presentation and left out.
\<close>

datatype tree_item = QTreeWidgetItem (texts: "string list") (children: "tree_item list")

definition addChild :: "tree_item \<Rightarrow> tree_item \<Rightarrow> tree_item" where
  "addChild item child = QTreeWidgetItem (texts item) (children item @ [child])"

definition path_head :: "string \<Rightarrow> string" where
  "path_head p = rev (dropWhile (\<lambda>c. c \<noteq> CHR ''/'') (rev p))"

definition dirname :: "string \<Rightarrow> string" where
  "dirname p =
     (let head = path_head p in
      if head \<noteq> [] \<and> \<not> list_all (\<lambda>c. c = CHR ''/'') head
      then rev (dropWhile (\<lambda>c. c = CHR ''/'') (rev head))
      else head)"

definition basename :: "string \<Rightarrow> string" where
  "basename p = rev (takeWhile (\<lambda>c. c \<noteq> CHR ''/'') (rev p))"

type_synonym folder_items = "(string \<times> tree_item) list"

fun add_to_folder :: "string \<Rightarrow> tree_item \<Rightarrow> folder_items \<Rightarrow> folder_items" where
  "add_to_folder folder child [] = []"
| "add_to_folder folder child ((k, item) # items) =
     (if k = folder then (k, addChild item child) # items
      else (k, item) # add_to_folder folder child items)"

definition add_row :: "row \<Rightarrow> folder_items \<Rightarrow> folder_items" where
  "add_row row_data items =
     (case row_data of (filename, filepath, size_mb, size_gb) \<Rightarrow>
        (let folder = dirname filepath;
             child_item = QTreeWidgetItem [filename, filepath, size_mb, size_gb] []
         in if folder \<notin> set (map fst items)
            then items @ [(folder, addChild (QTreeWidgetItem [basename folder, folder, [], []] []) child_item)]
            else add_to_folder folder child_item items))"

text \<open>The consumer receives one \<open>live_file_signal\<close> after the other, starting from the
  cleared dictionary.\<close>

definition ingest :: "row list \<Rightarrow> folder_items" where
  "ingest rows = foldl (\<lambda>items r. add_row r items) [] rows"


subsection \<open>The ranking of render\_funnel\_chart (lines 302 to 317)\<close>

text \<open>
  \<open>sorted(zip(sizes, labels), reverse=True)\<close> orders the pairs (size first, then label)
  from the largest down and keeps equal pairs in their order: insertion into a descending
  list, before the first element that is not larger.
\<close>

fun insort_reverse :: "'a::linorder \<Rightarrow> 'a list \<Rightarrow> 'a list" where
  "insort_reverse x [] = [x]"
| "insort_reverse x (y # ys) = (if y \<le> x then x # y # ys else y # insort_reverse x ys)"

definition sorted_reverse :: "'a::linorder list \<Rightarrow> 'a list" where
  "sorted_reverse xs = foldr insort_reverse xs []"

text \<open>
  The two lists \<open>sizes\<close> and \<open>labels\<close> are kept zipped. \<open>float_of\<close> is Python's \<open>float\<close> on
  the text of column 3, \<open>None\<close> where it raises \<open>ValueError\<close> (or gives no finite number).
  A child has four columns, as \<open>add_row\<close> builds it.
\<close>

definition chart_data :: "(string \<Rightarrow> rat option) \<Rightarrow> folder_items \<Rightarrow> (rat \<times> string) list option" where
  "chart_data float_of items =
     those (concat (map (\<lambda>(folder, item).
              map (\<lambda>child. map_option (\<lambda>size_gb. (size_gb, texts child ! 0)) (float_of (texts child ! 3)))
                  (children item)) items))"

definition render_funnel_chart :: "(string \<Rightarrow> rat option) \<Rightarrow> folder_items \<Rightarrow> (rat \<times> string) list option" where
  "render_funnel_chart float_of items =
     (case chart_data float_of items of
        None \<Rightarrow> None
      | Some data \<Rightarrow> Some (if data = [] then [] else sorted_reverse data))"

text \<open>\<open>float\<close> on a fixed-point decimal text such as \<open>format_2f\<close> prints.\<close>

definition is_digit :: "char \<Rightarrow> bool" where
  "is_digit c = (48 \<le> (of_char c :: nat) \<and> (of_char c :: nat) \<le> 57)"

definition nat_of_digits :: "string \<Rightarrow> nat" where
  "nat_of_digits s = foldl (\<lambda>a c. 10 * a + (of_char c - 48)) 0 s"

definition float_of_fixed :: "string \<Rightarrow> rat option" where
  "float_of_fixed s =
     (let neg = (s \<noteq> [] \<and> hd s = CHR ''-'');
          body = (if neg then tl s else s);
          ip = takeWhile (\<lambda>c. c \<noteq> CHR ''.'') body;
          fp = drop (length ip + 1) body
      in if length ip < length body \<and> ip \<noteq> [] \<and> fp \<noteq> [] \<and> list_all is_digit ip \<and> list_all is_digit fp
         then Some (fl ((if neg then - 1 else 1)
                * (of_nat (nat_of_digits ip) + of_nat (nat_of_digits fp) / 10 ^ length fp)))
         else None)"

section \<open>Notions and inputs of the statements\<close>

subsection \<open>Aggregation\<close>





subsection \<open>Ranking\<close>

text \<open>Three rows with the sizes 5.0, 1.0 and 5.0 of the spec's ranking example.\<close>

definition tie_rows :: "row list" where
  "tie_rows =
     [(''a'', ''/d/a'', ''5120.00'', ''5.00''),
      (''b'', ''/d/b'', ''1024.00'', ''1.00''),
      (''c'', ''/e/c'', ''5120.00'', ''5.00'')]"

text \<open>
  The ranking in the spec's words, for comparison: descending by size alone, entries of
  equal size in encounter order (a stable sort on the negated size).
\<close>

definition rank_by_size_stable :: "(rat \<times> string) list \<Rightarrow> (rat \<times> string) list" where
  "rank_by_size_stable data = sort_key (\<lambda>p. - fst p) data"

subsection \<open>Enumeration\<close>

text \<open>The number of file names that the walk yields: one cancel check for each.\<close>

definition file_checks :: "(string \<times> string list \<times> string list) list \<Rightarrow> nat" where
  "file_checks dirs = sum_list (map (\<lambda>(dirpath, dirnames, filenames). length filenames) dirs)"

text \<open>
  \<open>fs_empty\<close> is a root directory without files. \<open>fs_two\<close> is the root \<open>/r\<close> with an
  empty subdirectory and two files, \<open>f.bin\<close> of half a GiB and one byte and \<open>g.bin\<close> of
  three quarters of a GiB; its paths are absolute already. \<open>thr_half\<close> is a thread with the
  threshold 0.5 and no extension filter. \<open>cancel_at n\<close> is the schedule of one \<open>cancel\<close>
  call, made just before flag read \<open>n\<close>.
\<close>

definition fs_empty :: filesystem where
  "fs_empty = \<lparr> walk = (\<lambda>r. [(r, [], [])]), abspath = (\<lambda>p. p),
                exists = (\<lambda>p. False), getsize = (\<lambda>p. None) \<rparr>"

definition fs_two :: filesystem where
  "fs_two = \<lparr> walk = (\<lambda>r. [(''/r'', [''sub''], [''f.bin'', ''g.bin'']), (''/r/sub'', [], [])]),
              abspath = (\<lambda>p. p),
              exists = (\<lambda>p. True),
              getsize = (\<lambda>p. if p = ''/r/f.bin'' then Some 536870913
                               else if p = ''/r/g.bin'' then Some 805306368 else None) \<rparr>"

definition thr_half :: file_processor_thread where
  "thr_half = FileProcessorThread ''/r'' (Fin (1 / 2)) []"

definition cancel_at :: "nat \<Rightarrow> schedule" where
  "cancel_at n = (\<lambda>t. if t = n then [Cancel] else [])"

subsection \<open>Emission\<close>

text \<open>The signals of the iterations over a list of candidates, from position \<open>i\<close> on.\<close>

fun all_signals :: "(nat \<Rightarrow> rat) \<Rightarrow> nat \<Rightarrow> nat \<Rightarrow> candidate list \<Rightarrow> signal list" where
  "all_signals clock total_files i [] = []"
| "all_signals clock total_files i (c # cs) =
     emit_signals (clock i) i total_files c @ all_signals clock total_files (Suc i) cs"

text \<open>The percent values of the \<open>progress_update\<close> signals, and the rows of the
  \<open>live_file_signal\<close> signals, in order.\<close>

fun percents :: "signal list \<Rightarrow> int list" where
  "percents [] = []"
| "percents (progress_update p m # sigs) = p # percents sigs"
| "percents (s # sigs) = percents sigs"

fun live_rows :: "signal list \<Rightarrow> row list" where
  "live_rows [] = []"
| "live_rows (live_file_signal r # sigs) = r # live_rows sigs"
| "live_rows (s # sigs) = live_rows sigs"

text \<open>What the enumeration requires of a candidate (lines 53 to 65).\<close>

definition qualifies :: "filesystem \<Rightarrow> file_processor_thread \<Rightarrow> candidate \<Rightarrow> bool" where
  "qualifies fs thr c =
     (case c of (filename, file_path, size_mb, size_gb) \<Rightarrow>
        extension_ok thr filename \<and> exists fs file_path
        \<and> (case getsize fs file_path of
              None \<Rightarrow> False
            | Some sz \<Rightarrow> size_mb = fl (of_nat sz / 1024 ^ 2) \<and> size_gb = fl (of_nat sz / 1024 ^ 3))
        \<and> py_gt size_gb (threshold_gb thr))"

subsection \<open>Schedules and candidates of the runs on \<open>fs_two\<close>\<close>

text \<open>
  The enumeration of \<open>fs_two\<close> reads the flag twice (reads 0 and 1), and each iteration
  of the emission loop that is not paused reads it twice more: \<open>paused\<close> at reads 2 and 4,
  \<open>cancel_requested\<close> at reads 3 and 5. \<open>cand_f\<close> and \<open>cand_g\<close> are the two entries of
  \<open>files_to_process\<close>.
\<close>

definition pause_then_cancel :: schedule where
  "pause_then_cancel = (\<lambda>t. if t = 2 then [Pause] else if t = 3 then [Cancel] else [])"

definition cancel_and_pause_after_first :: schedule where
  "cancel_and_pause_after_first = (\<lambda>t. if t = 4 then [Cancel, Pause] else [])"

definition no_calls :: schedule where
  "no_calls = (\<lambda>t. [])"

definition cand_f :: candidate where
  "cand_f = (''f.bin'', ''/r/f.bin'', 536870913 / 1048576, 536870913 / 1073741824)"

definition cand_g :: candidate where
  "cand_g = (''g.bin'', ''/r/g.bin'', 768, 3 / 4)"

section \<open>Properties\<close>

subsection \<open>Rounding\<close>

lemma rhe_of_int: "rhe (of_int n) = n"
  by (simp add: rhe_def)

lemma rhe_floor_le: "\<lfloor>q\<rfloor> \<le> rhe q"
  unfolding rhe_def Let_def by auto

lemma rhe_le_floor: "rhe q \<le> \<lfloor>q\<rfloor> + 1"
  unfolding rhe_def Let_def by auto

lemma rhe_mono:
  assumes "q \<le> r"
  shows "rhe q \<le> rhe r"
proof (cases "\<lfloor>q\<rfloor> = \<lfloor>r\<rfloor>")
  case True
  then show ?thesis using assms unfolding rhe_def Let_def by auto
next
  case False
  then have "\<lfloor>q\<rfloor> < \<lfloor>r\<rfloor>" using floor_mono[OF assms] by linarith
  then have "rhe q \<le> \<lfloor>r\<rfloor>" using rhe_le_floor[of q] by linarith
  then show ?thesis using rhe_floor_le[of r] by linarith
qed

lemma expo_bounds:
  assumes "0 < x"
  shows "2 powi (expo x) \<le> x \<and> x < 2 powi (expo x + 1)"
proof (cases "1 \<le> x")
  case True
  define n where "n = nat \<lfloor>x\<rfloor>"
  have n: "0 < n" "of_nat n \<le> x" "x < of_nat n + 1"
  proof -
    have f: "1 \<le> \<lfloor>x\<rfloor>" using True by (simp add: le_floor_iff)
    show "0 < n" using f unfolding n_def by simp
    have "(of_nat n :: rat) = of_int \<lfloor>x\<rfloor>" using f unfolding n_def by simp
    then show "of_nat n \<le> x" "x < of_nat n + 1" by linarith+
  qed
  define L where "L = floorlog 2 n"
  have b: "2 ^ (L - 1) \<le> n" "n < 2 ^ L"
    using floorlog_bounds[of n 2] n(1) unfolding L_def by auto
  have Lpos: "0 < L" using n(1) unfolding L_def by (simp add: floorlog_def)
  have e: "expo x = int L - 1" using True unfolding expo_def L_def n_def by simp
  have "(of_nat (2 ^ (L - 1)) :: rat) \<le> of_nat n" using b(1) by (rule of_nat_mono)
  then have "(2::rat) ^ (L - 1) \<le> of_nat n" by simp
  then have "(2::rat) ^ (L - 1) \<le> x" using n(2) by (rule order_trans)
  then have lo: "(2::rat) powi (int L - 1) \<le> x" using Lpos
    by (simp add: power_int_def nat_diff_distrib')
  have "n + 1 \<le> 2 ^ L" using b(2) by simp
  then have "(of_nat (n + 1) :: rat) \<le> of_nat (2 ^ L)" by (rule of_nat_mono)
  then have "of_nat n + 1 \<le> (2::rat) ^ L" by simp
  then have "x < (2::rat) ^ L" using n(3) by linarith
  then have hi: "x < (2::rat) powi (int L)" by (simp add: power_int_def)
  show ?thesis using lo hi e by simp
next
  case False
  then have x1: "x < 1" by simp
  define y where "y = 1 / x"
  have y1: "1 < y" using assms x1 unfolding y_def by simp
  define m where "m = nat (\<lceil>y\<rceil> - 1)"
  have my: "of_nat m < y" "y \<le> of_nat m + 1" "0 < m"
  proof -
    have f: "2 \<le> \<lceil>y\<rceil>" using y1 by linarith
    show "0 < m" using f unfolding m_def by simp
    have "(of_nat m :: rat) = of_int \<lceil>y\<rceil> - 1" using f unfolding m_def by simp
    then show "of_nat m < y" "y \<le> of_nat m + 1" by linarith+
  qed
  define L where "L = floorlog 2 m"
  have b: "2 ^ (L - 1) \<le> m" "m < 2 ^ L"
    using floorlog_bounds[of m 2] my(3) unfolding L_def by auto
  have Lpos: "0 < L" using my(3) unfolding L_def by (simp add: floorlog_def)
  have e: "expo x = - int L" using False unfolding expo_def L_def m_def y_def by simp
  have "(of_nat (2 ^ (L - 1)) :: rat) \<le> of_nat m" using b(1) by (rule of_nat_mono)
  then have "(2::rat) ^ (L - 1) \<le> of_nat m" by simp
  then have ylo: "(2::rat) ^ (L - 1) < y" using my(1) by (rule order_le_less_trans)
  have "m + 1 \<le> 2 ^ L" using b(2) by simp
  then have "(of_nat (m + 1) :: rat) \<le> of_nat (2 ^ L)" by (rule of_nat_mono)
  then have "of_nat m + 1 \<le> (2::rat) ^ L" by simp
  then have yhi: "y \<le> (2::rat) ^ L" using my(2) by linarith
  have xy: "x = 1 / y" unfolding y_def by simp
  have lo: "(2::rat) powi (- int L) \<le> x"
  proof -
    have "1 / (2::rat) ^ L \<le> 1 / y" using yhi y1 by (simp add: frac_le)
    moreover have "(2::rat) powi (- int L) = 1 / 2 ^ L"
      by (simp add: power_int_minus inverse_eq_divide)
    ultimately show ?thesis by (simp add: xy)
  qed
  have hi: "x < (2::rat) powi (- int L + 1)"
  proof -
    have "1 / y < 1 / (2::rat) ^ (L - 1)" using ylo by (simp add: frac_less2)
    moreover have "- int L + 1 = - int (L - 1)" using Lpos by simp
    then have "(2::rat) powi (- int L + 1) = 1 / 2 ^ (L - 1)"
      by (simp only: power_int_minus power_int_of_nat inverse_eq_divide)
    ultimately show ?thesis by (simp add: xy)
  qed
  show ?thesis using lo hi e by simp
qed

lemma expo_le:
  assumes "0 < x" "x \<le> y"
  shows "expo x \<le> expo y"
proof (rule ccontr)
  assume "\<not> expo x \<le> expo y"
  then have "expo y + 1 \<le> expo x" by simp
  then have "(2::rat) powi (expo y + 1) \<le> 2 powi (expo x)"
    by (intro power_int_increasing) simp_all
  moreover have "2 powi (expo x) \<le> x" using expo_bounds[OF assms(1)] by simp
  moreover have "y < 2 powi (expo y + 1)" using expo_bounds[of y] assms by simp
  ultimately show False using assms(2) by linarith
qed

lemma fl_pos_eq: "0 < x \<Longrightarrow> fl x = of_int (rhe (x / 2 powi (expo x - 52))) * 2 powi (expo x - 52)"
  by (simp add: fl_def Let_def)

lemma scale_lo: "(2::rat) powi e / 2 powi (e - 52) = of_int (2 ^ 52)"
  by (simp add: power_int_diff)

lemma scale_hi: "(2::rat) powi (e + 1) / 2 powi (e - 52) = of_int (2 ^ 53)"
  by (simp add: power_int_diff power_int_add)

lemma fl_pos_range:
  assumes "0 < x"
  shows "2 powi (expo x) \<le> fl x \<and> fl x \<le> 2 powi (expo x + 1)"
proof -
  define e where "e = expo x"
  define u :: rat where "u = 2 powi (e - 52)"
  have u: "0 < u" unfolding u_def by simp
  have b: "2 powi e \<le> x" "x < 2 powi (e + 1)"
    using expo_bounds[OF assms] unfolding e_def by simp_all
  have "2 powi e / u \<le> x / u" using b(1) u by (simp add: divide_right_mono)
  then have "rhe (of_int (2 ^ 52)) \<le> rhe (x / u)" unfolding u_def scale_lo by (rule rhe_mono)
  then have lo: "(2::int) ^ 52 \<le> rhe (x / u)" by (simp only: rhe_of_int)
  have "x / u \<le> 2 powi (e + 1) / u" using b(2) u by (simp add: divide_right_mono)
  then have "rhe (x / u) \<le> rhe (of_int (2 ^ 53))" unfolding u_def scale_hi by (rule rhe_mono)
  then have hi: "rhe (x / u) \<le> (2::int) ^ 53" by (simp only: rhe_of_int)
  have f: "fl x = of_int (rhe (x / u)) * u" using fl_pos_eq[OF assms] unfolding u_def e_def .
  have "of_int (2 ^ 52) * u \<le> of_int (rhe (x / u)) * u"
    using lo u by (intro mult_right_mono) (simp_all only: of_int_le_iff less_imp_le)
  moreover have "of_int (2 ^ 52) * u = 2 powi e" unfolding u_def by (simp add: power_int_diff)
  ultimately have A: "2 powi e \<le> fl x" using f by simp
  have "of_int (rhe (x / u)) * u \<le> of_int (2 ^ 53) * u"
    using hi u by (intro mult_right_mono) (simp_all only: of_int_le_iff less_imp_le)
  moreover have "of_int (2 ^ 53) * u = 2 powi (e + 1)"
    unfolding u_def by (simp add: power_int_diff power_int_add)
  ultimately have B: "fl x \<le> 2 powi (e + 1)" using f by simp
  show ?thesis using A B unfolding e_def by simp
qed

lemma fl_pos: "0 < x \<Longrightarrow> 0 < fl x"
proof -
  assume "0 < x"
  then have "2 powi (expo x) \<le> fl x" using fl_pos_range by simp
  moreover have "0 < (2::rat) powi (expo x)" by simp
  ultimately show ?thesis by linarith
qed

lemma fl_mono_pos:
  assumes "0 < x" "x \<le> y"
  shows "fl x \<le> fl y"
proof (cases "expo x = expo y")
  case True
  have y: "0 < y" using assms by simp
  define u :: rat where "u = 2 powi (expo x - 52)"
  have u: "0 < u" unfolding u_def by simp
  have "x / u \<le> y / u" using assms(2) u by (simp add: divide_right_mono)
  then have "rhe (x / u) \<le> rhe (y / u)" by (rule rhe_mono)
  then have "of_int (rhe (x / u)) * u \<le> of_int (rhe (y / u)) * u"
    using u by (intro mult_right_mono) (simp_all only: of_int_le_iff less_imp_le)
  then show ?thesis using fl_pos_eq[OF assms(1)] fl_pos_eq[OF y] True unfolding u_def by simp
next
  case False
  have y: "0 < y" using assms by simp
  have "expo x + 1 \<le> expo y" using expo_le[OF assms] False by simp
  then have "(2::rat) powi (expo x + 1) \<le> 2 powi (expo y)"
    by (intro power_int_increasing) simp_all
  then show ?thesis using fl_pos_range[OF assms(1)] fl_pos_range[OF y] by linarith
qed

lemma py_int_mono:
  assumes "x \<le> y"
  shows "py_int x \<le> py_int y"
proof -
  have "\<lfloor>x\<rfloor> \<le> \<lfloor>y\<rfloor>" "\<lceil>x\<rceil> \<le> \<lceil>y\<rceil>"
    using assms by (simp_all add: floor_mono ceiling_mono)
  moreover have "\<lfloor>y\<rfloor> \<le> \<lceil>y\<rceil>" by (rule floor_le_ceiling)
  moreover have "\<not> 0 \<le> x \<Longrightarrow> \<lceil>x\<rceil> \<le> 0" by (simp add: ceiling_le_iff)
  moreover have "0 \<le> y \<Longrightarrow> 0 \<le> \<lfloor>y\<rfloor>" by simp
  ultimately show ?thesis unfolding py_int_def using assms by (auto; linarith)
qed

lemma fl_1: "fl 1 = 1"
  by code_simp

lemma fl_100: "fl 100 = 100"
  by code_simp

lemma fl_tenth: "fl (1 / 10) = 3602879701896397 / 36028797018963968"
  by code_simp

subsection \<open>The extension filter\<close>

lemma isspace_lower_char: "isspace (lower_char c) = isspace c"
proof -
  have "of_char (char_of (of_char c + 32 :: nat)) = (of_char c + 32 :: nat)" if "(of_char c :: nat) \<le> 90"
    using that by simp
  then show ?thesis unfolding isspace_def lower_char_def Let_def by auto
qed

lemma lower_char_idem: "lower_char (lower_char c) = lower_char c"
proof -
  have "of_char (char_of (of_char c + 32 :: nat)) = (of_char c + 32 :: nat)" if "(of_char c :: nat) \<le> 90"
    using that by simp
  then show ?thesis unfolding lower_char_def Let_def by auto
qed

lemma lower_idem: "lower (lower s) = lower s"
  by (simp add: lower_def lower_char_idem)

lemma lower_Nil_iff: "lower s = [] \<longleftrightarrow> s = []"
  by (simp add: lower_def)

lemma strip_not_space:
  assumes "strip s \<noteq> []"
  shows "\<not> isspace (hd (strip s)) \<and> \<not> isspace (last (strip s))"
proof -
  define a where "a = dropWhile isspace s"
  define b where "b = dropWhile isspace (rev a)"
  have s: "strip s = rev b" unfolding strip_def a_def b_def by simp
  have b: "b \<noteq> []" using assms s by simp
  then have hb: "\<not> isspace (hd b)" unfolding b_def by (rule hd_dropWhile)
  have a: "a \<noteq> []" using b unfolding b_def by auto
  then have ha: "\<not> isspace (hd a)" unfolding a_def by (rule hd_dropWhile)
  obtain pre where p: "rev a = pre @ b" unfolding b_def by (metis takeWhile_dropWhile_id)
  have "last b = last (rev a)" using p b by simp
  also have "\<dots> = hd a" using a by (simp add: last_rev)
  finally have "\<not> isspace (last b)" using ha by simp
  then show ?thesis using hb b unfolding s by (simp add: hd_rev last_rev)
qed

lemma hd_lower: "s \<noteq> [] \<Longrightarrow> hd (lower s) = lower_char (hd s)"
  by (simp add: lower_def hd_map)

lemma last_lower: "s \<noteq> [] \<Longrightarrow> last (lower s) = lower_char (last s)"
  by (simp add: lower_def last_map)

lemma extension_ok_no_filter: "extensions thr = [] \<Longrightarrow> extension_ok thr filename"
  by (simp add: extension_ok_def)

text \<open>
  Claim C10. The constructor strips and lowercases every filter entry and drops the entries
  that are empty after stripping: the stored entries are non-empty, carry no surrounding
  whitespace and no capital letter. A filter input of empty or whitespace-only strings
  gives the empty filter, under which every file name passes the extension test.
\<close>

theorem extension_filter_normalised:
  "extensions (FileProcessorThread root_dir threshold exts)
     = map (\<lambda>ext. lower (strip ext)) (filter (\<lambda>ext. strip ext \<noteq> []) exts)
   \<and> (\<forall>x \<in> set (extensions (FileProcessorThread root_dir threshold exts)).
         x \<noteq> [] \<and> \<not> isspace (hd x) \<and> \<not> isspace (last x) \<and> lower x = x)
   \<and> ((\<forall>ext \<in> set exts. strip ext = []) \<longrightarrow>
         extensions (FileProcessorThread root_dir threshold exts) = []
         \<and> (\<forall>filename. extension_ok (FileProcessorThread root_dir threshold exts) filename))"
proof (intro conjI ballI impI)
  show eq: "extensions (FileProcessorThread root_dir threshold exts)
     = map (\<lambda>ext. lower (strip ext)) (filter (\<lambda>ext. strip ext \<noteq> []) exts)"
    by (simp add: FileProcessorThread_def)
  fix x assume "x \<in> set (extensions (FileProcessorThread root_dir threshold exts))"
  then obtain ext where e: "x = lower (strip ext)" "strip ext \<noteq> []"
    unfolding eq by auto
  show "x \<noteq> []" using e by (simp add: lower_Nil_iff)
  show "\<not> isspace (hd x)" using e strip_not_space[of ext] by (simp add: hd_lower isspace_lower_char)
  show "\<not> isspace (last x)" using e strip_not_space[of ext] by (simp add: last_lower isspace_lower_char)
  show "lower x = x" using e by (simp add: lower_idem)
next
  assume a: "\<forall>ext \<in> set exts. strip ext = []"
  then have "filter (\<lambda>ext. strip ext \<noteq> []) exts = []" by (simp add: filter_empty_conv)
  then show n: "extensions (FileProcessorThread root_dir threshold exts) = []"
    by (simp add: FileProcessorThread_def)
  then show "\<forall>filename. extension_ok (FileProcessorThread root_dir threshold exts) filename"
    by (simp add: extension_ok_no_filter)
qed

theorem extension_filter_normalised_witness:
  "strip '''' = [] \<and> strip ''  '' = []
   \<and> extensions (FileProcessorThread ''/r'' (Fin (1 / 2)) ['''', ''  '']) = []
   \<and> extension_ok (FileProcessorThread ''/r'' (Fin (1 / 2)) ['''', ''  '']) ''video.MP4''
   \<and> extensions (FileProcessorThread ''/r'' (Fin (1 / 2)) ['' .MP4'', '''']) = [''.mp4'']
   \<and> \<not> isspace (hd ''.mp4'') \<and> \<not> isspace (last ''.mp4'') \<and> lower ''.mp4'' = ''.mp4''"
proof -
  have h: "\<forall>ext \<in> set ['''', ''  '']. strip ext = []"
    by (simp add: strip_def isspace_def)
  have a: "extensions (FileProcessorThread ''/r'' (Fin (1 / 2)) ['''', ''  '']) = []
         \<and> (\<forall>filename. extension_ok (FileProcessorThread ''/r'' (Fin (1 / 2)) ['''', ''  '']) filename)"
    using extension_filter_normalised[of "''/r''" "Fin (1 / 2)" "['''', ''  '']"] h by blast
  have e: "map (\<lambda>ext. lower (strip ext)) (filter (\<lambda>ext. strip ext \<noteq> []) ['' .MP4'', '''']) = [''.mp4'']"
    by code_simp
  note t = extension_filter_normalised[of "''/r''" "Fin (1 / 2)" "['' .MP4'', '''']"]
  have b: "extensions (FileProcessorThread ''/r'' (Fin (1 / 2)) ['' .MP4'', '''']) = [''.mp4'']"
    using conjunct1[OF t] e by (rule trans)
  have c: "\<forall>x \<in> set [''.mp4'']. x \<noteq> [] \<and> \<not> isspace (hd x) \<and> \<not> isspace (last x) \<and> lower x = x"
    using conjunct1[OF conjunct2[OF t]] unfolding b .
  show ?thesis using h a b c by simp
qed

subsection \<open>The default threshold\<close>

lemma fl_0: "fl 0 = 0"
  by (simp add: fl_def)

lemma fl_below_tenth: "fl (107374182 / 1024 ^ 3) = 107374182 / 1024 ^ 3"
  by code_simp

lemma fl_above_tenth: "fl (107374183 / 1024 ^ 3) = 107374183 / 1024 ^ 3"
  by code_simp

lemma default_threshold_exact:
  "(fl (1 / 10) < fl (of_nat sz / 1024 ^ 3)) = (1 / 10 < (of_nat sz :: rat) / 1024 ^ 3)"
proof (cases "107374183 \<le> sz")
  case True
  then have "(107374183 :: rat) \<le> of_nat sz"
    by (metis of_nat_le_iff of_nat_numeral)
  then have le: "(107374183 :: rat) / 1024 ^ 3 \<le> of_nat sz / 1024 ^ 3"
    by (simp add: divide_right_mono)
  have "fl (107374183 / 1024 ^ 3) \<le> fl (of_nat sz / 1024 ^ 3)"
    by (rule fl_mono_pos[OF _ le]) simp
  then have "fl (1 / 10) < fl (of_nat sz / 1024 ^ 3)"
    unfolding fl_above_tenth fl_tenth by simp
  moreover have "1 / 10 < (of_nat sz :: rat) / 1024 ^ 3" using le by simp
  ultimately show ?thesis by simp
next
  case False
  then have "sz \<le> 107374182" by simp
  then have "(of_nat sz :: rat) \<le> 107374182"
    by (metis of_nat_le_iff of_nat_numeral)
  then have le: "(of_nat sz :: rat) / 1024 ^ 3 \<le> 107374182 / 1024 ^ 3"
    by (simp add: divide_right_mono)
  have n: "\<not> 1 / 10 < (of_nat sz :: rat) / 1024 ^ 3" using le by simp
  have "\<not> fl (1 / 10) < fl (of_nat sz / 1024 ^ 3)"
  proof (cases "sz = 0")
    case True
    then show ?thesis by (simp add: fl_0 fl_tenth)
  next
    case False
    then have "0 < (of_nat sz :: rat) / 1024 ^ 3" by simp
    then have "fl (of_nat sz / 1024 ^ 3) \<le> fl (107374182 / 1024 ^ 3)"
      using le by (rule fl_mono_pos)
    then show ?thesis unfolding fl_below_tenth fl_tenth by simp
  qed
  then show ?thesis using n by simp
qed

text \<open>
  Claim C9. With an empty size field \<open>start_scan\<close> passes the literal \<open>0.1\<close>, and the
  constructor keeps it (it is not zero): the thread's threshold is the double nearest to
  one tenth. For a file of any byte size the comparison of \<open>run\<close> against this threshold
  holds exactly when the size exceeds a tenth of a GiB.
\<close>

theorem default_threshold:
  assumes "folder \<noteq> []"
  shows "\<exists>thr. start_scan float_of (Some folder) [] ext_text = Inr thr
           \<and> threshold_gb thr = Fin (fl (1 / 10))
           \<and> fl (1 / 10) = 3602879701896397 / 36028797018963968
           \<and> (\<forall>sz. py_gt (fl (of_nat sz / 1024 ^ 3)) (threshold_gb thr)
                     = (1 / 10 < (of_nat sz :: rat) / 1024 ^ 3))"
proof -
  have nz: "fl (1 / 10) \<noteq> 0" unfolding fl_tenth by simp
  define thr where "thr = FileProcessorThread folder (Fin (fl (1 / 10))) (split_comma ext_text)"
  have s: "start_scan float_of (Some folder) [] ext_text = Inr thr"
    using assms unfolding start_scan_def thr_def by simp
  have t: "threshold_gb thr = Fin (fl (1 / 10))"
    using nz unfolding thr_def FileProcessorThread_def py_or_def by simp
  have "\<forall>sz. py_gt (fl (of_nat sz / 1024 ^ 3)) (threshold_gb thr)
                     = (1 / 10 < (of_nat sz :: rat) / 1024 ^ 3)"
    unfolding t py_gt.simps using default_threshold_exact by blast
  then show ?thesis using s t fl_tenth by blast
qed

theorem default_threshold_witness:
  "''/data'' \<noteq> []
   \<and> (\<exists>thr. start_scan (\<lambda>s. None) (Some ''/data'') [] ''.mp4,.zip'' = Inr thr
           \<and> threshold_gb thr = Fin (3602879701896397 / 36028797018963968))"
proof -
  have h: "''/data'' \<noteq> []" by simp
  obtain thr where
    "start_scan (\<lambda>s. None) (Some ''/data'') [] ''.mp4,.zip'' = Inr thr"
    "threshold_gb thr = Fin (fl (1 / 10))"
    "fl (1 / 10) = 3602879701896397 / 36028797018963968"
    using default_threshold[OF h, of "\<lambda>s. None" "''.mp4,.zip''"] by blast
  then show ?thesis by auto
qed

subsection \<open>Aggregation\<close>
















subsection \<open>Ranking\<close>

lemma mset_insort_reverse: "mset (insort_reverse x xs) = add_mset x (mset xs)"
  by (induction xs) auto

lemma mset_sorted_reverse: "mset (sorted_reverse xs) = mset xs"
  unfolding sorted_reverse_def by (induction xs) (auto simp: mset_insort_reverse)

lemma set_insort_reverse: "set (insort_reverse x xs) = insert x (set xs)"
  by (induction xs) auto

lemma descending_insort_reverse:
  "sorted_wrt (\<lambda>p q. q \<le> p) xs \<Longrightarrow> sorted_wrt (\<lambda>p q. q \<le> p) (insort_reverse x xs)"
  by (induction xs) (auto simp: set_insort_reverse)

lemma descending_sorted_reverse: "sorted_wrt (\<lambda>p q. q \<le> p) (sorted_reverse xs)"
  unfolding sorted_reverse_def by (induction xs) (auto simp: descending_insort_reverse)

lemma pair_le_iff:
  "((q :: rat \<times> string) \<le> p) = (fst q < fst p \<or> (fst q = fst p \<and> snd q \<le> snd p))"
  by (cases p; cases q) auto

lemma f500: "float_of_fixed ''5.00'' = Some 5" by code_simp
lemma f100: "float_of_fixed ''1.00'' = Some 1" by code_simp

lemma tie_ingest: "ingest tie_rows =
   [(''/d'', QTreeWidgetItem [''d'', ''/d'', [], []]
         [QTreeWidgetItem [''a'', ''/d/a'', ''5120.00'', ''5.00''] [],
          QTreeWidgetItem [''b'', ''/d/b'', ''1024.00'', ''1.00''] []]),
    (''/e'', QTreeWidgetItem [''e'', ''/e'', [], []]
         [QTreeWidgetItem [''c'', ''/e/c'', ''5120.00'', ''5.00''] []])]"
  by code_simp

lemma tie_data: "chart_data float_of_fixed (ingest tie_rows) = Some [(5, ''a''), (1, ''b''), (5, ''c'')]"
  unfolding tie_ingest chart_data_def by (simp add: f500 f100)

lemma tie_sorted: "sorted_reverse [(5 :: rat, ''a''), (1, ''b''), (5, ''c'')] = [(5, ''c''), (5, ''a''), (1, ''b'')]"
  unfolding sorted_reverse_def by simp

text \<open>
  Claim C4, as the code has it. The ranking is a permutation of the collected
  \<open>(size, label)\<close> pairs in descending order of the pair: the sizes never increase, and
  entries of equal size are ordered by label, from the largest label down, not by
  encounter order. No data gives the empty ranking.
\<close>

theorem rank_descending:
  assumes "chart_data float_of items = Some data"
  shows "\<exists>ranked. render_funnel_chart float_of items = Some ranked
           \<and> mset ranked = mset data
           \<and> sorted_wrt (\<lambda>p q. fst q \<le> fst p) ranked
           \<and> sorted_wrt (\<lambda>p q. fst q < fst p \<or> (fst q = fst p \<and> snd q \<le> snd p)) ranked
           \<and> (data = [] \<longrightarrow> ranked = [])
           \<and> render_funnel_chart float_of [] = Some []"
proof -
  define ranked where "ranked = (if data = [] then [] else sorted_reverse data)"
  have r: "render_funnel_chart float_of items = Some ranked"
    using assms unfolding render_funnel_chart_def ranked_def by simp
  have e: "ranked = sorted_reverse data" unfolding ranked_def by (simp add: sorted_reverse_def)
  have m: "mset ranked = mset data" unfolding e by (rule mset_sorted_reverse)
  have s: "sorted_wrt (\<lambda>p q. q \<le> p) ranked" unfolding e by (rule descending_sorted_reverse)
  then have s2: "sorted_wrt (\<lambda>p q. fst q < fst p \<or> (fst q = fst p \<and> snd q \<le> snd p)) ranked"
    unfolding pair_le_iff .
  then have s1: "sorted_wrt (\<lambda>p q. fst q \<le> fst p) ranked"
    by (rule sorted_wrt_mono_rel[rotated]) auto
  have n: "render_funnel_chart float_of [] = Some []"
    by (simp add: render_funnel_chart_def chart_data_def)
  show ?thesis using r m s1 s2 n unfolding ranked_def by auto
qed

theorem rank_descending_witness:
  "chart_data float_of_fixed (ingest tie_rows) = Some [(5, ''a''), (1, ''b''), (5, ''c'')]
   \<and> (\<exists>ranked. render_funnel_chart float_of_fixed (ingest tie_rows) = Some ranked
         \<and> mset ranked = mset [(5, ''a''), (1, ''b''), (5, ''c'')]
         \<and> sorted_wrt (\<lambda>p q. fst q \<le> fst p) ranked)"
  using rank_descending[OF tie_data] tie_data by blast

text \<open>
  The sizes 5.0, 1.0, 5.0 of the spec, under the labels a, b, c met in this order: the
  ranking puts c before a.
\<close>

theorem rank_tie_counterexample:
  "chart_data float_of_fixed (ingest tie_rows) = Some [(5, ''a''), (1, ''b''), (5, ''c'')]
   \<and> render_funnel_chart float_of_fixed (ingest tie_rows) = Some [(5, ''c''), (5, ''a''), (1, ''b'')]
   \<and> rank_by_size_stable [(5, ''a''), (1, ''b''), (5, ''c'')] = [(5, ''a''), (5, ''c''), (1, ''b'')]
   \<and> render_funnel_chart float_of_fixed (ingest tie_rows)
       \<noteq> Some (rank_by_size_stable [(5, ''a''), (1, ''b''), (5, ''c'')])"
proof -
  have r: "render_funnel_chart float_of_fixed (ingest tie_rows) = Some [(5, ''c''), (5, ''a''), (1, ''b'')]"
    unfolding render_funnel_chart_def tie_data using tie_sorted by simp
  have s: "rank_by_size_stable [(5, ''a''), (1, ''b''), (5, ''c'')] = [(5, ''a''), (5, ''c''), (1, ''b'')]"
    unfolding rank_by_size_stable_def by simp
  show ?thesis unfolding r s using tie_data by simp
qed

subsection \<open>Control calls and the enumeration\<close>

lemma call_fields [simp]:
  "threshold_gb (call c thr) = threshold_gb thr"
  "extensions (call c thr) = extensions thr"
  "root_directory (call c thr) = root_directory thr"
  by (cases c; simp add: cancel_def pause_def resume_def)+

lemma call_cancel_requested [simp]:
  "cancel_requested (call c thr) = (cancel_requested thr \<or> c = Cancel)"
  by (cases c; simp add: cancel_def pause_def resume_def)

lemma deliver_fields [simp]:
  "threshold_gb (deliver cs thr) = threshold_gb thr"
  "extensions (deliver cs thr) = extensions thr"
  "root_directory (deliver cs thr) = root_directory thr"
  unfolding deliver_def by (induction cs arbitrary: thr; simp)+

lemma deliver_cancel_requested [simp]:
  "cancel_requested (deliver cs thr) = (cancel_requested thr \<or> Cancel \<in> set cs)"
  unfolding deliver_def by (induction cs arbitrary: thr) auto

lemma deliver_Nil [simp]: "deliver [] thr = thr"
  by (simp add: deliver_def)

lemma scan_filenames_Some:
  assumes "scan_filenames env fs dirpath filenames (t, thr, acc) = Some (t', thr', acc')"
  shows "t' = t + length filenames \<and> cancel_requested thr' = cancel_requested thr
         \<and> threshold_gb thr' = threshold_gb thr \<and> extensions thr' = extensions thr"
  using assms
proof (induction filenames arbitrary: t thr acc)
  case Nil
  then show ?case by simp
next
  case (Cons f filenames)
  let ?thr = "deliver (env t) thr"
  from Cons.prems have nc: "\<not> cancel_requested ?thr"
    by (auto simp: Let_def split: if_splits)
  with Cons.prems have
    "scan_filenames env fs dirpath filenames (Suc t, ?thr, examine fs ?thr dirpath f acc) = Some (t', thr', acc')"
    by (simp add: Let_def)
  from Cons.IH[OF this] nc show ?case by auto
qed

lemma scan_filenames_None:
  "(scan_filenames env fs dirpath filenames (t, thr, acc) = None)
   = (filenames \<noteq> [] \<and> (cancel_requested thr \<or> (\<exists>j<length filenames. Cancel \<in> set (env (t + j)))))"
proof (induction filenames arbitrary: t thr acc)
  case Nil
  then show ?case by simp
next
  case (Cons f filenames)
  let ?thr = "deliver (env t) thr"
  show ?case
  proof (cases "cancel_requested ?thr")
    case True
    then have "cancel_requested thr \<or> Cancel \<in> set (env (t + 0))" by simp
    then have "cancel_requested thr \<or> (\<exists>j<length (f # filenames). Cancel \<in> set (env (t + j)))"
      by (metis length_greater_0_conv list.distinct(1))
    then show ?thesis using True by (simp add: Let_def)
  next
    case False
    then have nc: "\<not> cancel_requested thr" "Cancel \<notin> set (env t)" by simp_all
    have "(scan_filenames env fs dirpath (f # filenames) (t, thr, acc) = None)
          = (scan_filenames env fs dirpath filenames (Suc t, ?thr, examine fs ?thr dirpath f acc) = None)"
      using False by (simp add: Let_def)
    also have "\<dots> = (filenames \<noteq> [] \<and> (\<exists>j<length filenames. Cancel \<in> set (env (Suc t + j))))"
      unfolding Cons.IH using False by simp
    also have "\<dots> = (\<exists>j<length (f # filenames). Cancel \<in> set (env (t + j)))"
    proof
      assume "filenames \<noteq> [] \<and> (\<exists>j<length filenames. Cancel \<in> set (env (Suc t + j)))"
      then obtain j where "j < length filenames" "Cancel \<in> set (env (Suc t + j))" by blast
      then have "Suc j < length (f # filenames) \<and> Cancel \<in> set (env (t + Suc j))" by simp
      then show "\<exists>j<length (f # filenames). Cancel \<in> set (env (t + j))" by blast
    next
      assume "\<exists>j<length (f # filenames). Cancel \<in> set (env (t + j))"
      then obtain j where j: "j < length (f # filenames)" "Cancel \<in> set (env (t + j))" by blast
      with nc have "j \<noteq> 0" by (cases j) auto
      then obtain j' where "j = Suc j'" by (cases j) auto
      with j have "j' < length filenames" "Cancel \<in> set (env (Suc t + j'))" by simp_all
      then show "filenames \<noteq> [] \<and> (\<exists>j<length filenames. Cancel \<in> set (env (Suc t + j)))"
        by auto
    qed
    finally show ?thesis using nc by simp
  qed
qed

lemma scan_walk_Some:
  assumes "scan_walk env fs dirs (t, thr, acc) = Some (t', thr', acc')"
  shows "t' = t + file_checks dirs \<and> cancel_requested thr' = cancel_requested thr
         \<and> threshold_gb thr' = threshold_gb thr \<and> extensions thr' = extensions thr"
  using assms
proof (induction dirs arbitrary: t thr acc)
  case Nil
  then show ?case by (simp add: file_checks_def)
next
  case (Cons d dirs)
  obtain dirpath dirnames filenames where d: "d = (dirpath, dirnames, filenames)" by (cases d)
  from Cons.prems obtain t1 thr1 acc1 where
    s: "scan_filenames env fs dirpath filenames (t, thr, acc) = Some (t1, thr1, acc1)"
    and w: "scan_walk env fs dirs (t1, thr1, acc1) = Some (t', thr', acc')"
    unfolding d by (auto split: option.splits)
  from scan_filenames_Some[OF s] Cons.IH[OF w] show ?case
    unfolding d by (simp add: file_checks_def)
qed

lemma scan_walk_None:
  "(scan_walk env fs dirs (t, thr, acc) = None)
   = ((cancel_requested thr \<and> 0 < file_checks dirs)
      \<or> (\<exists>j<file_checks dirs. Cancel \<in> set (env (t + j))))"
proof (induction dirs arbitrary: t thr acc)
  case Nil
  then show ?case by (simp add: file_checks_def)
next
  case (Cons d dirs)
  obtain dirpath dirnames filenames where d: "d = (dirpath, dirnames, filenames)" by (cases d)
  define n1 where "n1 = length filenames"
  define n2 where "n2 = file_checks dirs"
  have n: "file_checks (d # dirs) = n1 + n2" unfolding d n1_def n2_def file_checks_def by simp
  show ?case
  proof (cases "scan_filenames env fs dirpath filenames (t, thr, acc)")
    case None
    then have c: "filenames \<noteq> []" "cancel_requested thr \<or> (\<exists>j<n1. Cancel \<in> set (env (t + j)))"
      unfolding scan_filenames_None n1_def by simp_all
    then have "0 < n1" unfolding n1_def by simp
    with c(2) have "(cancel_requested thr \<and> 0 < n1 + n2) \<or> (\<exists>j<n1 + n2. Cancel \<in> set (env (t + j)))"
      by (metis add_gr_0 trans_less_add1)
    then show ?thesis using None unfolding d n[unfolded d] by simp
  next
    case (Some st)
    obtain t1 thr1 acc1 where st: "st = (t1, thr1, acc1)" by (cases st)
    note s = scan_filenames_Some[OF Some[unfolded st]]
    have t1: "t1 = t + n1" and c1: "cancel_requested thr1 = cancel_requested thr"
      using s unfolding n1_def by simp_all
    have no: "\<not> (filenames \<noteq> [] \<and> (cancel_requested thr \<or> (\<exists>j<n1. Cancel \<in> set (env (t + j)))))"
      using Some scan_filenames_None[of env fs dirpath filenames t thr acc] unfolding n1_def by simp
    have "(scan_walk env fs (d # dirs) (t, thr, acc) = None)
          = (scan_walk env fs dirs (t1, thr1, acc1) = None)"
      unfolding d using Some st by simp
    also have "\<dots> = ((cancel_requested thr \<and> 0 < n2) \<or> (\<exists>j<n2. Cancel \<in> set (env (t + n1 + j))))"
      unfolding Cons.IH n2_def c1 t1 by simp
    also have "\<dots> = ((cancel_requested thr \<and> 0 < n1 + n2) \<or> (\<exists>j<n1 + n2. Cancel \<in> set (env (t + j))))"
    proof
      assume "(cancel_requested thr \<and> 0 < n2) \<or> (\<exists>j<n2. Cancel \<in> set (env (t + n1 + j)))"
      then show "(cancel_requested thr \<and> 0 < n1 + n2) \<or> (\<exists>j<n1 + n2. Cancel \<in> set (env (t + j)))"
      proof
        assume "cancel_requested thr \<and> 0 < n2"
        then show ?thesis by simp
      next
        assume "\<exists>j<n2. Cancel \<in> set (env (t + n1 + j))"
        then obtain j where "j < n2" "Cancel \<in> set (env (t + n1 + j))" by blast
        then have "n1 + j < n1 + n2 \<and> Cancel \<in> set (env (t + (n1 + j)))" by (simp add: add.assoc)
        then show ?thesis by blast
      qed
    next
      assume a: "(cancel_requested thr \<and> 0 < n1 + n2) \<or> (\<exists>j<n1 + n2. Cancel \<in> set (env (t + j)))"
      show "(cancel_requested thr \<and> 0 < n2) \<or> (\<exists>j<n2. Cancel \<in> set (env (t + n1 + j)))"
      proof (cases "filenames = []")
        case True
        then have "n1 = 0" unfolding n1_def by simp
        with a show ?thesis by simp
      next
        case False
        with no have nc: "\<not> cancel_requested thr" "\<forall>j<n1. Cancel \<notin> set (env (t + j))" by auto
        with a obtain j where j: "j < n1 + n2" "Cancel \<in> set (env (t + j))" by blast
        with nc have "n1 \<le> j" by (meson not_le)
        then obtain j' where "j = n1 + j'" using le_Suc_ex by blast
        with j have "j' < n2 \<and> Cancel \<in> set (env (t + n1 + j'))" by (simp add: add.assoc)
        then show ?thesis by blast
      qed
    qed
    finally show ?thesis unfolding n .
  qed
qed

subsection \<open>Cancellation during enumeration; no candidates\<close>

lemma run_cancelled:
  "enumerate_files env fs thr = None \<Longrightarrow> run fuel env clock fs thr = ([cancelled], Returned)"
  by (simp add: run_def)

lemma run_no_candidates:
  "enumerate_files env fs thr = Some (t, thr1, []) \<Longrightarrow>
   run fuel env clock fs thr
     = ([progress_update 100 ''No files found above threshold.'', result_ready []], Returned)"
  by (simp add: run_def)

lemma scan_walk_no_files:
  assumes "\<forall>(dirpath, dirnames, filenames) \<in> set dirs. filenames = []"
  shows "scan_walk env fs dirs st = Some st"
  using assms by (induction dirs) auto

text \<open>
  Claim C3, as the code has it. The flag is read once before each file name that the walk
  yields, and nowhere else during enumeration: the enumeration is abandoned exactly when
  the flag is set at one of these reads, that is, when it was set before a walk with at
  least one file, or a \<open>cancel\<close> call arrives before one of the reads. The run then emits
  \<open>cancelled\<close> and nothing else.
\<close>

theorem cancel_checked_per_file:
  "(enumerate_files env fs thr = None)
     = ((cancel_requested thr \<and> 0 < file_checks (walk fs (root_directory thr)))
        \<or> (\<exists>t<file_checks (walk fs (root_directory thr)). Cancel \<in> set (env t)))
   \<and> (enumerate_files env fs thr = None \<longrightarrow>
        run fuel env clock fs thr = ([cancelled], Returned))"
proof (intro conjI impI)
  show "(enumerate_files env fs thr = None)
     = ((cancel_requested thr \<and> 0 < file_checks (walk fs (root_directory thr)))
        \<or> (\<exists>t<file_checks (walk fs (root_directory thr)). Cancel \<in> set (env t)))"
    unfolding enumerate_files_def scan_walk_None by simp
next
  assume "enumerate_files env fs thr = None"
  then show "run fuel env clock fs thr = ([cancelled], Returned)" by (rule run_cancelled)
qed

lemma file_checks_two: "file_checks (walk fs_two (root_directory thr_half)) = 2"
  by (simp add: file_checks_def fs_two_def)

theorem cancel_checked_per_file_witness:
  "Cancel \<in> set (cancel_at 1 1)
   \<and> file_checks (walk fs_two (root_directory thr_half)) = 2
   \<and> enumerate_files (cancel_at 1) fs_two thr_half = None
   \<and> run 1 (cancel_at 1) (\<lambda>i. 0) fs_two thr_half = ([cancelled], Returned)"
proof -
  note t = cancel_checked_per_file[of "cancel_at 1" fs_two thr_half 1 "\<lambda>i. 0"]
  have c: "Cancel \<in> set (cancel_at 1 1)" by (simp add: cancel_at_def)
  then have "\<exists>t<file_checks (walk fs_two (root_directory thr_half)). Cancel \<in> set (cancel_at 1 t)"
    unfolding file_checks_two by (intro exI[of _ 1]) simp
  then have n: "enumerate_files (cancel_at 1) fs_two thr_half = None"
    using conjunct1[OF t] by blast
  then have "run 1 (cancel_at 1) (\<lambda>i. 0) fs_two thr_half = ([cancelled], Returned)"
    using conjunct2[OF t] by blast
  then show ?thesis using c n file_checks_two by blast
qed

text \<open>
  The flag is set before the walk begins and the walk yields one directory, without
  files: no check takes place, and the run reports that no files were found.
\<close>

theorem cancel_per_directory_counterexample:
  "cancel_requested (cancel thr_half)
   \<and> walk fs_empty (root_directory (cancel thr_half)) = [(''/r'', [], [])]
   \<and> run 1 (\<lambda>t. []) (\<lambda>i. 0) fs_empty (cancel thr_half)
       = ([progress_update 100 ''No files found above threshold.'', result_ready []], Returned)
   \<and> cancelled \<notin> set (fst (run 1 (\<lambda>t. []) (\<lambda>i. 0) fs_empty (cancel thr_half)))"
proof -
  have w: "walk fs_empty (root_directory (cancel thr_half)) = [(''/r'', [], [])]"
    by (simp add: fs_empty_def cancel_def thr_half_def FileProcessorThread_def)
  have "enumerate_files (\<lambda>t. []) fs_empty (cancel thr_half) = Some (0, cancel thr_half, [])"
    unfolding enumerate_files_def w by simp
  then have r: "run 1 (\<lambda>t. []) (\<lambda>i. 0) fs_empty (cancel thr_half)
       = ([progress_update 100 ''No files found above threshold.'', result_ready []], Returned)"
    by (rule run_no_candidates)
  have c: "cancel_requested (cancel thr_half)" by (simp add: cancel_def)
  show ?thesis unfolding r using c w by simp
qed

text \<open>
  Claim C8, as the code has it. When the enumeration ends with no candidate, in particular
  when the walk yields no file name at all, the run emits the progress value 100 with the
  message \<open>No files found above threshold.\<close> (the message ends with a full stop), then
  \<open>result_ready\<close> with the empty list, and returns; no \<open>live_file_signal\<close> is emitted.
\<close>

theorem no_candidates:
  "(enumerate_files env fs thr = Some (t, thr1, []) \<longrightarrow>
      run fuel env clock fs thr
        = ([progress_update 100 ''No files found above threshold.'', result_ready []], Returned))
   \<and> ((\<forall>(dirpath, dirnames, filenames) \<in> set (walk fs (root_directory thr)). filenames = []) \<longrightarrow>
      run fuel env clock fs thr
        = ([progress_update 100 ''No files found above threshold.'', result_ready []], Returned))"
proof (intro conjI impI)
  assume "enumerate_files env fs thr = Some (t, thr1, [])"
  then show "run fuel env clock fs thr
        = ([progress_update 100 ''No files found above threshold.'', result_ready []], Returned)"
    by (rule run_no_candidates)
next
  assume "\<forall>(dirpath, dirnames, filenames) \<in> set (walk fs (root_directory thr)). filenames = []"
  then have "enumerate_files env fs thr = Some (0, thr, [])"
    unfolding enumerate_files_def by (rule scan_walk_no_files)
  then show "run fuel env clock fs thr
        = ([progress_update 100 ''No files found above threshold.'', result_ready []], Returned)"
    by (rule run_no_candidates)
qed

theorem no_candidates_witness:
  "walk fs_empty (root_directory thr_half) = [(''/r'', [], [])]
   \<and> run 1 (\<lambda>t. []) (\<lambda>i. 0) fs_empty thr_half
       = ([progress_update 100 ''No files found above threshold.'', result_ready []], Returned)"
proof -
  have w: "walk fs_empty (root_directory thr_half) = [(''/r'', [], [])]"
    by (simp add: fs_empty_def thr_half_def FileProcessorThread_def)
  then have "\<forall>(dirpath, dirnames, filenames) \<in> set (walk fs_empty (root_directory thr_half)). filenames = []"
    by simp
  then have "run 1 (\<lambda>t. []) (\<lambda>i. 0) fs_empty thr_half
       = ([progress_update 100 ''No files found above threshold.'', result_ready []], Returned)"
    using conjunct2[OF no_candidates[of "\<lambda>t. []" fs_empty thr_half 0 thr_half 1 "\<lambda>i. 0"]] by blast
  then show ?thesis using w by blast
qed

text \<open>The message of the claim lacks the full stop of the message that is emitted.\<close>

theorem no_candidates_message_counterexample:
  "run 1 (\<lambda>t. []) (\<lambda>i. 0) fs_empty thr_half
     \<noteq> ([progress_update 100 ''No files found above threshold'', result_ready []], Returned)"
proof -
  have w: "walk fs_empty (root_directory thr_half) = [(''/r'', [], [])]"
    by (simp add: fs_empty_def thr_half_def FileProcessorThread_def)
  have "enumerate_files (\<lambda>t. []) fs_empty thr_half = Some (0, thr_half, [])"
    unfolding enumerate_files_def w by simp
  then have "run 1 (\<lambda>t. []) (\<lambda>i. 0) fs_empty thr_half
       = ([progress_update 100 ''No files found above threshold.'', result_ready []], Returned)"
    by (rule run_no_candidates)
  then show ?thesis by simp
qed

subsection \<open>The shape of the signal stream\<close>

lemma percents_append: "percents (xs @ ys) = percents xs @ percents ys"
  by (induction xs rule: percents.induct) auto

lemma live_rows_append: "live_rows (xs @ ys) = live_rows xs @ live_rows ys"
  by (induction xs rule: live_rows.induct) auto

lemma percents_emit_signals: "percents (emit_signals e i n c) = [progress_percent i n]"
  by (simp add: emit_signals_def)

lemma live_rows_emit_signals: "live_rows (emit_signals e i n c) = [row_of c]"
  by (simp add: emit_signals_def)

lemma percents_all_signals:
  "percents (all_signals clock n i cs) = map (\<lambda>j. progress_percent j n) [i..<i + length cs]"
proof (induction cs arbitrary: i)
  case Nil
  then show ?case by simp
next
  case (Cons c cs)
  have "i < i + length (c # cs)" by simp
  then have "[i..<i + length (c # cs)] = i # [Suc i..<i + length (c # cs)]"
    by (rule upt_conv_Cons)
  then have "[i..<i + length (c # cs)] = i # [Suc i..<Suc i + length cs]" by simp
  then show ?case using Cons[of "Suc i"] by (simp add: percents_append percents_emit_signals)
qed

lemma live_rows_all_signals: "live_rows (all_signals clock n i cs) = map row_of cs"
  by (induction cs arbitrary: i) (auto simp: live_rows_append live_rows_emit_signals)

lemma live_rows_set: "(live_file_signal r \<in> set sigs) = (r \<in> set (live_rows sigs))"
  by (induction sigs rule: live_rows.induct) auto

lemma cancelled_all_signals: "cancelled \<notin> set (all_signals clock n i cs)"
  by (induction cs arbitrary: i) (auto simp: emit_signals_def)

lemma result_ready_all_signals: "result_ready rs \<notin> set (all_signals clock n i cs)"
  by (induction cs arbitrary: i) (auto simp: emit_signals_def)

lemma emit_files_shape:
  "\<exists>k \<le> length cs.
      fst (emit_files fuel env clock n cs i st results)
        = all_signals clock n i (take k cs)
          @ (if snd (emit_files fuel env clock n cs i st results) = Stopped then [cancelled] else [])
      \<and> (\<forall>rs. snd (emit_files fuel env clock n cs i st results) = Finished rs \<longrightarrow>
            k = length cs \<and> rs = results @ map row_of cs)
      \<and> (snd (emit_files fuel env clock n cs i st results) = Stopped
          \<or> snd (emit_files fuel env clock n cs i st results) = Blocked \<longrightarrow> k < length cs)"
proof (induction cs arbitrary: i st results)
  case Nil
  then show ?case by simp
next
  case (Cons c cs)
  obtain t thr where st: "st = (t, thr)" by (cases st)
  show ?case
  proof (cases "pause_wait fuel env t thr")
    case None
    then have "emit_files fuel env clock n (c # cs) i st results = ([], Blocked)"
      unfolding st by simp
    then show ?thesis by (intro exI[of _ 0]) simp
  next
    case (Some p)
    obtain t1 thr1 where p: "p = (t1, thr1)" by (cases p)
    show ?thesis
    proof (cases "cancel_requested (deliver (env t1) thr1)")
      case True
      then have "emit_files fuel env clock n (c # cs) i st results = ([cancelled], Stopped)"
        unfolding st using Some p by (simp add: Let_def)
      then show ?thesis by (intro exI[of _ 0]) simp
    next
      case False
      define st' where "st' = (Suc t1, deliver (env t1) thr1)"
      define rest where "rest = emit_files fuel env clock n cs (Suc i) st' (results @ [row_of c])"
      have e: "emit_files fuel env clock n (c # cs) i st results
               = (emit_signals (clock i) i n c @ fst rest, snd rest)"
        unfolding st rest_def st'_def using Some p False
        by (simp add: Let_def split: prod.splits)
      from Cons[of "Suc i" st' "results @ [row_of c]"] obtain k where
        k: "k \<le> length cs"
        "fst rest = all_signals clock n (Suc i) (take k cs)
                    @ (if snd rest = Stopped then [cancelled] else [])"
        "\<forall>rs. snd rest = Finished rs \<longrightarrow> k = length cs \<and> rs = (results @ [row_of c]) @ map row_of cs"
        "snd rest = Stopped \<or> snd rest = Blocked \<longrightarrow> k < length cs"
        unfolding rest_def by blast
      show ?thesis unfolding e using k by (intro exI[of _ "Suc k"]) simp
    qed
  qed
qed

lemma run_shape:
  assumes "enumerate_files env fs thr = Some (t, thr1, files)" "files \<noteq> []"
  shows "\<exists>k \<le> length files. \<exists>tail.
           fst (run fuel env clock fs thr) = all_signals clock (length files) 0 (take k files) @ tail
           \<and> (tail = [] \<and> k < length files \<and> snd (run fuel env clock fs thr) = Waiting
              \<or> tail = [cancelled] \<and> k < length files \<and> snd (run fuel env clock fs thr) = Returned
              \<or> tail = [result_ready (map row_of files)] \<and> k = length files
                  \<and> snd (run fuel env clock fs thr) = Returned)"
proof -
  define r where "r = emit_files fuel env clock (length files) files 0 (t, thr1) []"
  obtain k where k: "k \<le> length files"
    "fst r = all_signals clock (length files) 0 (take k files)
             @ (if snd r = Stopped then [cancelled] else [])"
    "\<forall>rs. snd r = Finished rs \<longrightarrow> k = length files \<and> rs = [] @ map row_of files"
    "snd r = Stopped \<or> snd r = Blocked \<longrightarrow> k < length files"
    using emit_files_shape[of files fuel env clock "length files" 0 "(t, thr1)" "[]"]
    unfolding r_def by blast
  have run: "run fuel env clock fs thr
             = (case r of (sigs, Finished results) \<Rightarrow> (sigs @ [result_ready results], Returned)
                        | (sigs, Stopped) \<Rightarrow> (sigs, Returned)
                        | (sigs, Blocked) \<Rightarrow> (sigs, Waiting))"
    using assms unfolding run_def r_def by (simp add: Let_def)
  show ?thesis
  proof (cases "snd r")
    case (Finished rs)
    then have "run fuel env clock fs thr = (fst r @ [result_ready rs], Returned)"
      unfolding run by (cases r) simp
    then show ?thesis using k Finished
      by (intro exI[of _ k] conjI exI[of _ "[result_ready (map row_of files)]"]) simp_all
  next
    case Stopped
    then have "run fuel env clock fs thr = (fst r, Returned)"
      unfolding run by (cases r) simp
    then show ?thesis using k Stopped
      by (intro exI[of _ k] conjI exI[of _ "[cancelled]"]) simp_all
  next
    case Blocked
    then have "run fuel env clock fs thr = (fst r, Waiting)"
      unfolding run by (cases r) simp
    then show ?thesis using k Blocked
      by (intro exI[of _ k] conjI exI[of _ "[]"]) simp_all
  qed
qed

subsection \<open>Emitted files\<close>

lemma qualifies_cong:
  "threshold_gb thr' = threshold_gb thr \<Longrightarrow> extensions thr' = extensions thr \<Longrightarrow>
   qualifies fs thr' c = qualifies fs thr c"
  by (simp add: qualifies_def extension_ok_def)

lemma examine_qualifies:
  assumes "\<forall>c \<in> set acc. qualifies fs thr c"
  shows "\<forall>c \<in> set (examine fs thr dirpath filename acc). qualifies fs thr c"
  using assms unfolding examine_def get_file_size_def Let_def qualifies_def
  by (auto split: option.splits)

lemma scan_filenames_qualifies:
  assumes "scan_filenames env fs dirpath filenames (t, thr, acc) = Some (t', thr', acc')"
    and "\<forall>c \<in> set acc. qualifies fs thr c"
  shows "\<forall>c \<in> set acc'. qualifies fs thr c"
  using assms
proof (induction filenames arbitrary: t thr acc)
  case Nil
  then show ?case by simp
next
  case (Cons f filenames)
  let ?thr = "deliver (env t) thr"
  have q: "\<And>c. qualifies fs ?thr c = qualifies fs thr c" by (rule qualifies_cong) simp_all
  from Cons.prems(1) have
    s: "scan_filenames env fs dirpath filenames (Suc t, ?thr, examine fs ?thr dirpath f acc) = Some (t', thr', acc')"
    by (auto simp: Let_def split: if_splits)
  have "\<forall>c \<in> set acc. qualifies fs ?thr c" using Cons.prems(2) q by simp
  then have "\<forall>c \<in> set (examine fs ?thr dirpath f acc). qualifies fs ?thr c"
    by (rule examine_qualifies)
  from Cons.IH[OF s this] show ?case using q by simp
qed

lemma scan_walk_qualifies:
  assumes "scan_walk env fs dirs (t, thr, acc) = Some (t', thr', acc')"
    and "\<forall>c \<in> set acc. qualifies fs thr c"
  shows "\<forall>c \<in> set acc'. qualifies fs thr c"
  using assms
proof (induction dirs arbitrary: t thr acc)
  case Nil
  then show ?case by simp
next
  case (Cons d dirs)
  obtain dirpath dirnames filenames where d: "d = (dirpath, dirnames, filenames)" by (cases d)
  from Cons.prems(1) obtain t1 thr1 acc1 where
    s: "scan_filenames env fs dirpath filenames (t, thr, acc) = Some (t1, thr1, acc1)"
    and w: "scan_walk env fs dirs (t1, thr1, acc1) = Some (t', thr', acc')"
    unfolding d by (auto split: option.splits)
  have q: "\<And>c. qualifies fs thr1 c = qualifies fs thr c"
    using scan_filenames_Some[OF s] by (intro qualifies_cong) simp_all
  have "\<forall>c \<in> set acc1. qualifies fs thr1 c"
    using scan_filenames_qualifies[OF s Cons.prems(2)] q by simp
  from Cons.IH[OF w this] show ?case using q by simp
qed

lemma enumerate_files_qualifies:
  assumes "enumerate_files env fs thr = Some (t, thr1, files)"
  shows "\<forall>c \<in> set files. qualifies fs thr c"
  using scan_walk_qualifies[OF assms[unfolded enumerate_files_def]] by simp

lemma run_live_rows:
  assumes "live_file_signal r \<in> set (fst (run fuel env clock fs thr))"
  shows "\<exists>t thr1 files c. enumerate_files env fs thr = Some (t, thr1, files)
           \<and> c \<in> set files \<and> r = row_of c"
proof (cases "enumerate_files env fs thr")
  case None
  then show ?thesis using assms by (simp add: run_def)
next
  case (Some st)
  obtain t thr1 files where st: "st = (t, thr1, files)" by (cases st)
  show ?thesis
  proof (cases "files = []")
    case True
    then show ?thesis using assms Some st by (simp add: run_def)
  next
    case False
    from run_shape[OF Some[unfolded st] False, of fuel clock] obtain k tail where
      k: "fst (run fuel env clock fs thr) = all_signals clock (length files) 0 (take k files) @ tail"
      "tail = [] \<or> tail = [cancelled] \<or> tail = [result_ready (map row_of files)]"
      by blast
    have "live_rows tail = []" using k(2) by auto
    then have "live_rows (fst (run fuel env clock fs thr)) = map row_of (take k files)"
      unfolding k(1) by (simp add: live_rows_append live_rows_all_signals)
    then have "r \<in> row_of ` set (take k files)"
      using assms unfolding live_rows_set by simp
    then obtain c where "c \<in> set files" "r = row_of c"
      by (meson imageE in_set_takeD)
    then show ?thesis using Some st by blast
  qed
qed

lemma py_gt_py_or: "py_gt x (py_or T (Fin 1)) \<Longrightarrow> py_gt x T"
  by (cases T) (auto simp: py_or_def split: if_splits)

text \<open>
  Claim C1, as the code has it. Each \<open>live_file_signal\<close> row comes from a file that exists,
  whose size probe succeeded, and whose size in GiB before rounding is strictly greater
  than the thread's threshold, hence than the requested threshold \<open>T\<close> (the thread holds
  \<open>T or 1.0\<close>); the two size texts of the row are that size rounded to two decimals. When the
  stored filter is non-empty, the lowercased name ends with one of its entries.
\<close>

theorem emitted_files_exceed_threshold:
  assumes "live_file_signal (filename, file_path, mb_text, gb_text)
             \<in> set (fst (run fuel env clock fs thr))"
  shows "\<exists>sz. getsize fs file_path = Some sz \<and> exists fs file_path
           \<and> py_gt (fl (of_nat sz / 1024 ^ 3)) (threshold_gb thr)
           \<and> (\<forall>T. threshold_gb thr = py_or T (Fin 1) \<longrightarrow> py_gt (fl (of_nat sz / 1024 ^ 3)) T)
           \<and> mb_text = format_2f (fl (of_nat sz / 1024 ^ 2))
           \<and> gb_text = format_2f (fl (of_nat sz / 1024 ^ 3))
           \<and> (extensions thr \<noteq> [] \<longrightarrow>
                (\<exists>ext \<in> set (extensions thr). endswith (lower filename) ext))"
proof -
  from run_live_rows[OF assms] obtain t thr1 files c where
    e: "enumerate_files env fs thr = Some (t, thr1, files)" and c: "c \<in> set files"
    and r: "(filename, file_path, mb_text, gb_text) = row_of c" by blast
  obtain fn fp size_mb size_gb where cc: "c = (fn, fp, size_mb, size_gb)" by (cases c)
  have q: "qualifies fs thr c" using enumerate_files_qualifies[OF e] c by simp
  have names: "fn = filename" "fp = file_path" "mb_text = format_2f size_mb" "gb_text = format_2f size_gb"
    using r unfolding cc row_of_def by simp_all
  from q obtain sz where sz: "getsize fs file_path = Some sz"
    "size_mb = fl (of_nat sz / 1024 ^ 2)" "size_gb = fl (of_nat sz / 1024 ^ 3)"
    unfolding cc qualifies_def names by (auto split: option.splits)
  have ex: "exists fs file_path" and gt: "py_gt size_gb (threshold_gb thr)"
    and ok: "extension_ok thr filename"
    using q unfolding cc qualifies_def names by simp_all
  have ext: "extensions thr \<noteq> [] \<longrightarrow> (\<exists>ext \<in> set (extensions thr). endswith (lower filename) ext)"
    using ok unfolding extension_ok_def by (auto simp: list_ex_iff)
  have T: "\<forall>T. threshold_gb thr = py_or T (Fin 1) \<longrightarrow> py_gt (fl (of_nat sz / 1024 ^ 3)) T"
    using gt py_gt_py_or unfolding sz(3) by metis
  show ?thesis using sz ex gt ext T names by (intro exI[of _ sz]) simp
qed

subsection \<open>Progress\<close>

lemma progress_percent_mono:
  assumes "i \<le> j" "0 < total_files"
  shows "progress_percent i total_files \<le> progress_percent j total_files"
proof -
  have "(of_nat (i + 1) :: rat) / of_nat total_files \<le> of_nat (j + 1) / of_nat total_files"
    using assms by (intro divide_right_mono) simp_all
  moreover have p: "0 < (of_nat (i + 1) :: rat) / of_nat total_files" using assms(2) by simp
  ultimately have
    "fl (of_nat (i + 1) / of_nat total_files) \<le> fl (of_nat (j + 1) / of_nat total_files)"
    by (intro fl_mono_pos)
  then have "fl (of_nat (i + 1) / of_nat total_files) * 100
             \<le> fl (of_nat (j + 1) / of_nat total_files) * 100"
    by simp
  moreover have "0 < fl (of_nat (i + 1) / of_nat total_files) * 100" using fl_pos[OF p] by simp
  ultimately have "fl (fl (of_nat (i + 1) / of_nat total_files) * 100)
                   \<le> fl (fl (of_nat (j + 1) / of_nat total_files) * 100)"
    by (intro fl_mono_pos)
  then show ?thesis unfolding progress_percent_def by (rule py_int_mono)
qed

lemma progress_percent_last:
  assumes "0 < total_files"
  shows "progress_percent (total_files - 1) total_files = 100"
proof -
  have "(of_nat (total_files - 1 + 1) :: rat) / of_nat total_files = 1" using assms by simp
  then show ?thesis
    unfolding progress_percent_def by (simp only: fl_1 fl_100 mult_1) (simp add: py_int_def)
qed

lemma sorted_progress:
  assumes "0 < n"
  shows "sorted (map (\<lambda>i. progress_percent i n) [0..<k])"
  unfolding sorted_map
  by (rule sorted_wrt_mono_rel[of _ "(\<le>)"]) (auto intro: progress_percent_mono[OF _ assms])

text \<open>
  Claim C7, as the code has it. Within one run the percent values of the progress signals
  never decrease, and when the run ends with \<open>result_ready\<close> the last of them is 100.
  With \<open>n\<close> candidates the values are \<open>progress_percent i n\<close> for the positions
  \<open>i = 0, 1, \<dots>\<close> processed: the truncation of the float product
  \<open>((i + 1) / n) * 100\<close>, each operation rounded to a double.
\<close>

theorem progress_monotone:
  "sorted (percents (fst (run fuel env clock fs thr)))
   \<and> (\<forall>rs. result_ready rs \<in> set (fst (run fuel env clock fs thr)) \<longrightarrow>
         percents (fst (run fuel env clock fs thr)) \<noteq> []
         \<and> last (percents (fst (run fuel env clock fs thr))) = 100)
   \<and> (\<forall>t thr1 files. enumerate_files env fs thr = Some (t, thr1, files) \<longrightarrow> files \<noteq> [] \<longrightarrow>
         (\<exists>k \<le> length files. percents (fst (run fuel env clock fs thr))
                = map (\<lambda>i. progress_percent i (length files)) [0..<k]))"
proof (cases "enumerate_files env fs thr")
  case None
  then have "fst (run fuel env clock fs thr) = [cancelled]" by (simp add: run_def)
  then show ?thesis using None by simp
next
  case (Some st)
  obtain t thr1 files where st: "st = (t, thr1, files)" by (cases st)
  show ?thesis
  proof (cases "files = []")
    case True
    then have "fst (run fuel env clock fs thr)
               = [progress_update 100 ''No files found above threshold.'', result_ready []]"
      using Some st by (simp add: run_def)
    then show ?thesis using Some st True by simp
  next
    case False
    define n where "n = length files"
    have n: "0 < n" using False unfolding n_def by simp
    from run_shape[OF Some[unfolded st] False, of fuel clock] obtain k tail where
      k: "k \<le> n" "fst (run fuel env clock fs thr) = all_signals clock n 0 (take k files) @ tail"
      and tail: "tail = [] \<and> k < n \<or> tail = [cancelled] \<and> k < n
                 \<or> tail = [result_ready (map row_of files)] \<and> k = n"
      unfolding n_def by blast
    have pt: "percents tail = []" using tail by auto
    have len: "length (take k files) = k" using k(1) unfolding n_def by simp
    have p: "percents (fst (run fuel env clock fs thr)) = map (\<lambda>i. progress_percent i n) [0..<k]"
      unfolding k(2) percents_append pt percents_all_signals len by simp
    have s: "sorted (percents (fst (run fuel env clock fs thr)))"
      unfolding p by (rule sorted_progress[OF n])
    have l: "\<forall>rs. result_ready rs \<in> set (fst (run fuel env clock fs thr)) \<longrightarrow>
         percents (fst (run fuel env clock fs thr)) \<noteq> []
         \<and> last (percents (fst (run fuel env clock fs thr))) = 100"
    proof (intro allI impI)
      fix rs assume "result_ready rs \<in> set (fst (run fuel env clock fs thr))"
      then have "result_ready rs \<in> set tail"
        unfolding k(2) using result_ready_all_signals by simp
      then have kn: "k = n" using tail by auto
      then have "[0..<k] = [0..<n - 1] @ [n - 1]" using n
        by (metis Suc_diff_1 upt_Suc_append zero_le)
      then have "percents (fst (run fuel env clock fs thr))
                 = map (\<lambda>i. progress_percent i n) [0..<n - 1] @ [progress_percent (n - 1) n]"
        unfolding p by simp
      then show "percents (fst (run fuel env clock fs thr)) \<noteq> []
         \<and> last (percents (fst (run fuel env clock fs thr))) = 100"
        using progress_percent_last[OF n] by simp
    qed
    have e: "\<forall>t thr1 files. enumerate_files env fs thr = Some (t, thr1, files) \<longrightarrow> files \<noteq> [] \<longrightarrow>
         (\<exists>k \<le> length files. percents (fst (run fuel env clock fs thr))
                = map (\<lambda>i. progress_percent i (length files)) [0..<k])"
      using Some st p k(1) unfolding n_def by auto
    show ?thesis using s l e by blast
  qed
qed

text \<open>Position 29 of 100: the float product is just below 29, the integer quotient is 29.\<close>

theorem progress_percent_counterexample:
  "progress_percent 28 100 = 28 \<and> (int (28 + 1) * 100) div int 100 = 29
   \<and> progress_percent 28 100 \<noteq> (int (28 + 1) * 100) div int 100"
proof -
  have "progress_percent 28 100 = 28" by code_simp
  then show ?thesis by simp
qed

subsection \<open>Pause and cancel during emission\<close>

lemma call_paused: "paused (call c thr) = (c = Pause \<or> (paused thr \<and> c \<noteq> Resume))"
  by (cases c) (simp_all add: cancel_def pause_def resume_def)

lemma deliver_paused_keep:
  "paused thr \<Longrightarrow> Resume \<notin> set cs \<Longrightarrow> paused (deliver cs thr)"
  unfolding deliver_def
proof (induction cs arbitrary: thr)
  case Nil
  then show ?case by simp
next
  case (Cons c cs)
  have "c \<noteq> Resume" using Cons.prems(2) by auto
  then have "paused (call c thr)" using Cons.prems(1) by (simp add: call_paused)
  then show ?case using Cons.IH[of "call c thr"] Cons.prems(2) by simp
qed

lemma deliver_unpaused_keep:
  "\<not> paused thr \<Longrightarrow> Pause \<notin> set cs \<Longrightarrow> \<not> paused (deliver cs thr)"
  unfolding deliver_def
proof (induction cs arbitrary: thr)
  case Nil
  then show ?case by simp
next
  case (Cons c cs)
  have "c \<noteq> Pause" using Cons.prems(2) by auto
  then have "\<not> paused (call c thr)" using Cons.prems(1) by (simp add: call_paused)
  then show ?case using Cons.IH[of "call c thr"] Cons.prems(2) by simp
qed

text \<open>A thread that is paused and never resumed stays in the pause wait, whatever the fuel.\<close>

lemma pause_wait_blocked:
  assumes "paused thr" "\<forall>t' \<ge> t. Resume \<notin> set (env t')"
  shows "pause_wait fuel env t thr = None"
  using assms
proof (induction fuel arbitrary: t thr)
  case 0
  then show ?case by simp
next
  case (Suc fuel)
  have p: "paused (deliver (env t) thr)"
    using Suc.prems by (intro deliver_paused_keep) simp_all
  have "pause_wait fuel env (Suc t) (deliver (env t) thr) = None"
    using Suc.prems(2) by (intro Suc.IH[OF p]) simp
  then show ?case using p by (simp add: Let_def)
qed

lemma pause_wait_running:
  assumes "\<not> paused thr" "Pause \<notin> set (env t)"
  shows "pause_wait (Suc fuel) env t thr = Some (Suc t, deliver (env t) thr)"
  using deliver_unpaused_keep[OF assms] by (simp add: Let_def)

lemma pause_wait_cancel_requested:
  assumes "pause_wait fuel env t thr = Some (t1, thr1)" "cancel_requested thr"
  shows "cancel_requested thr1"
  using assms
proof (induction fuel arbitrary: t thr)
  case 0
  then show ?case by simp
next
  case (Suc fuel)
  show ?case
  proof (cases "paused (deliver (env t) thr)")
    case True
    then have "pause_wait fuel env (Suc t) (deliver (env t) thr) = Some (t1, thr1)"
      using Suc.prems(1) by (simp add: Let_def)
    moreover have "cancel_requested (deliver (env t) thr)" using Suc.prems(2) by simp
    ultimately show ?thesis by (rule Suc.IH)
  next
    case False
    then have "thr1 = deliver (env t) thr" using Suc.prems(1) by (simp add: Let_def)
    then show ?thesis using Suc.prems(2) by simp
  qed
qed

lemma emit_files_block:
  "pause_wait fuel env t thr = None \<Longrightarrow>
   emit_files fuel env clock n (c # cs) i (t, thr) results = ([], Blocked)"
  by simp

lemma emit_files_stop:
  "pause_wait fuel env t thr = Some (t1, thr1) \<Longrightarrow> cancel_requested (deliver (env t1) thr1) \<Longrightarrow>
   emit_files fuel env clock n (c # cs) i (t, thr) results = ([cancelled], Stopped)"
  by (simp add: Let_def)

lemma emit_files_step:
  "pause_wait fuel env t thr = Some (t1, thr1) \<Longrightarrow> \<not> cancel_requested (deliver (env t1) thr1) \<Longrightarrow>
   emit_files fuel env clock n cs (Suc i) (Suc t1, deliver (env t1) thr1) (results @ [row_of c])
     = (sigs, e) \<Longrightarrow>
   emit_files fuel env clock n (c # cs) i (t, thr) results
     = (emit_signals (clock i) i n c @ sigs, e)"
  by (simp add: Let_def)

text \<open>
  A cancel request that is pending when an iteration begins is seen at the check after the
  pause wait: the iteration emits \<open>cancelled\<close> once the wait has ended, and nothing while
  it lasts.
\<close>

lemma cancel_seen_after_wait:
  assumes "cancel_requested thr"
  shows "emit_files fuel env clock n (c # cs) i (t, thr) results
         = (case pause_wait fuel env t thr of
              None \<Rightarrow> ([], Blocked)
            | Some p \<Rightarrow> ([cancelled], Stopped))"
proof (cases "pause_wait fuel env t thr")
  case None
  then show ?thesis by simp
next
  case (Some p)
  obtain t1 thr1 where p: "p = (t1, thr1)" by (cases p)
  have "cancel_requested thr1" using pause_wait_cancel_requested[OF Some[unfolded p] assms] .
  then show ?thesis using Some p by (simp add: Let_def)
qed

text \<open>
  Without pauses each iteration reads two flags. A cancel request that arrives after \<open>N\<close>
  iterations and before the check of the next one ends the loop after exactly the signals
  of the first \<open>N\<close> candidates.
\<close>

lemma cancel_after_emissions:
  assumes "\<not> paused thr" "\<forall>t'. Pause \<notin> set (env t')" "\<not> cancel_requested thr"
    and "\<forall>j < 2 * N. Cancel \<notin> set (env (t + j))"
    and "Cancel \<in> set (env (t + 2 * N)) \<or> Cancel \<in> set (env (t + 2 * N + 1))"
    and "N < length cs"
  shows "emit_files (Suc fuel) env clock n cs i (t, thr) results
         = (all_signals clock n i (take N cs) @ [cancelled], Stopped)"
  using assms
proof (induction N arbitrary: cs i t thr results)
  case 0
  then obtain c cs' where cs: "cs = c # cs'" by (cases cs) auto
  have w: "pause_wait (Suc fuel) env t thr = Some (Suc t, deliver (env t) thr)"
    using "0.prems"(1,2) by (intro pause_wait_running) simp_all
  have "cancel_requested (deliver (env (Suc t)) (deliver (env t) thr))"
    using "0.prems"(5) by auto
  then have "emit_files (Suc fuel) env clock n (c # cs') i (t, thr) results = ([cancelled], Stopped)"
    by (rule emit_files_stop[OF w])
  then show ?case unfolding cs by simp
next
  case (Suc N)
  then obtain c cs' where cs: "cs = c # cs'" by (cases cs) auto
  define thr2 where "thr2 = deliver (env (Suc t)) (deliver (env t) thr)"
  have w: "pause_wait (Suc fuel) env t thr = Some (Suc t, deliver (env t) thr)"
    using Suc.prems(1,2) by (intro pause_wait_running) simp_all
  have c0: "Cancel \<notin> set (env (t + 0))" "Cancel \<notin> set (env (t + 1))"
    using Suc.prems(4)[rule_format, of 0] Suc.prems(4)[rule_format, of 1] by simp_all
  then have nc: "\<not> cancel_requested thr2" unfolding thr2_def using Suc.prems(3) by simp
  have np: "\<not> paused thr2" unfolding thr2_def
    using Suc.prems(1,2) by (intro deliver_unpaused_keep) simp_all
  have a4: "\<forall>j < 2 * N. Cancel \<notin> set (env (Suc (Suc t) + j))"
  proof (intro allI impI)
    fix j assume "j < 2 * N"
    then have "j + 2 < 2 * Suc N" by simp
    then have "Cancel \<notin> set (env (t + (j + 2)))" using Suc.prems(4) by blast
    then show "Cancel \<notin> set (env (Suc (Suc t) + j))" by (simp add: add.commute)
  qed
  have a5: "Cancel \<in> set (env (Suc (Suc t) + 2 * N)) \<or> Cancel \<in> set (env (Suc (Suc t) + 2 * N + 1))"
    using Suc.prems(5) by simp
  have a6: "N < length cs'" using Suc.prems(6) unfolding cs by simp
  have rest: "emit_files (Suc fuel) env clock n cs' (Suc i) (Suc (Suc t), thr2) (results @ [row_of c])
              = (all_signals clock n (Suc i) (take N cs') @ [cancelled], Stopped)"
    by (rule Suc.IH[OF np Suc.prems(2) nc a4 a5 a6])
  have "emit_files (Suc fuel) env clock n (c # cs') i (t, thr) results
        = (emit_signals (clock i) i n c @ all_signals clock n (Suc i) (take N cs') @ [cancelled], Stopped)"
    using w nc[unfolded thr2_def] rest[unfolded thr2_def] by (rule emit_files_step)
  then show ?case unfolding cs by simp
qed

subsection \<open>A run on two files\<close>

lemma fs_two_fields:
  "abspath fs_two p = p" "exists fs_two p = True"
  "walk fs_two r = [(''/r'', [''sub''], [''f.bin'', ''g.bin'']), (''/r/sub'', [], [])]"
  "getsize fs_two ''/r/f.bin'' = Some 536870913"
  "getsize fs_two ''/r/g.bin'' = Some 805306368"
  by (simp_all add: fs_two_def)

lemma fl_f_mb: "fl (536870913 / 1048576) = 536870913 / 1048576"
  by code_simp

lemma fl_f_gb: "fl (536870913 / 1073741824) = 536870913 / 1073741824"
  by code_simp

lemma fl_g_mb: "fl 768 = 768"
  by code_simp

lemma fl_g_gb: "fl (3 / 4) = 3 / 4"
  by code_simp

lemma sizes_f: "get_file_size fs_two ''/r/f.bin'' = Some (536870913 / 1048576, 536870913 / 1073741824)"
  unfolding get_file_size_def fs_two_fields by (simp add: fl_f_mb fl_f_gb)

lemma sizes_g: "get_file_size fs_two ''/r/g.bin'' = Some (768, 3 / 4)"
  unfolding get_file_size_def fs_two_fields by (simp add: fl_g_mb fl_g_gb)

lemma thr_half_fields:
  "threshold_gb thr_half = Fin (1 / 2)" "extensions thr_half = []" "root_directory thr_half = ''/r''"
  "cancel_requested thr_half = False" "paused thr_half = False"
  by (simp_all add: thr_half_def FileProcessorThread_def py_or_def)

lemma join_two: "join ''/r'' ''f.bin'' = ''/r/f.bin''" "join ''/r'' ''g.bin'' = ''/r/g.bin''"
  by (simp_all add: join_def)

lemma examine_f: "examine fs_two thr_half ''/r'' ''f.bin'' acc = acc @ [cand_f]"
  unfolding examine_def join_two fs_two_fields Let_def sizes_f cand_f_def
  by (simp add: extension_ok_def thr_half_fields)

lemma examine_g: "examine fs_two thr_half ''/r'' ''g.bin'' acc = acc @ [cand_g]"
  unfolding examine_def join_two fs_two_fields Let_def sizes_g cand_g_def
  by (simp add: extension_ok_def thr_half_fields)

lemma enumerate_two:
  assumes "env 0 = []" "env (Suc 0) = []"
  shows "enumerate_files env fs_two thr_half = Some (2, thr_half, [cand_f, cand_g])"
  unfolding enumerate_files_def fs_two_fields thr_half_fields(3)
  by (simp add: Let_def assms thr_half_fields examine_f examine_g numeral_2_eq_2)

lemma digits:
  "digit_char 0 = CHR ''0''" "digit_char 1 = CHR ''1''" "digit_char 2 = CHR ''2''"
  "digit_char 3 = CHR ''3''" "digit_char 4 = CHR ''4''" "digit_char 5 = CHR ''5''"
  "digit_char 6 = CHR ''6''" "digit_char 7 = CHR ''7''" "digit_char 8 = CHR ''8''"
  "digit_char 9 = CHR ''9''" "digit_char (Suc 0) = CHR ''1''" "digit_char (Suc (Suc 0)) = CHR ''2''"
  by code_simp+

lemma rhe_f_mb: "rhe (\<bar>536870913 / 1048576\<bar> * 100) = 51200"
  by code_simp

lemma rhe_f_gb: "rhe (\<bar>536870913 / 1073741824\<bar> * 100) = 50"
  by code_simp

lemma fmt_f_mb: "format_2f (536870913 / 1048576) = ''512.00''"
  unfolding format_2f_def rhe_f_mb by (simp add: digits)

lemma fmt_f_gb: "format_2f (536870913 / 1073741824) = ''0.50''"
  unfolding format_2f_def rhe_f_gb by (simp add: digits)

lemma fmt_g_mb: "format_2f 768 = ''768.00''"
  unfolding format_2f_def by (simp add: digits rhe_of_int[of 76800, simplified])

lemma fmt_g_gb: "format_2f (3 / 4) = ''0.75''"
  unfolding format_2f_def by (simp add: digits rhe_of_int[of 75, simplified])

lemma row_f: "row_of cand_f = (''f.bin'', ''/r/f.bin'', ''512.00'', ''0.50'')"
  unfolding row_of_def cand_f_def by (simp only: prod.case fmt_f_mb fmt_f_gb)

lemma row_g: "row_of cand_g = (''g.bin'', ''/r/g.bin'', ''768.00'', ''0.75'')"
  unfolding row_of_def cand_g_def by (simp only: prod.case fmt_g_mb fmt_g_gb)

lemma percent_two: "progress_percent 0 2 = 50" "progress_percent 1 2 = 100"
  by code_simp+

lemma remaining_two: "remaining 0 0 2 = 0" "remaining 0 1 2 = 0"
  by code_simp+

lemma signals_f: "emit_signals 0 0 2 cand_f
  = [live_file_signal (''f.bin'', ''/r/f.bin'', ''512.00'', ''0.50''),
     progress_update 50 ''f.bin | 1 of 2 | ~0s left'',
     eta_signal ''ETA: ~0s'']"
  unfolding emit_signals_def row_f percent_two remaining_two
  by (simp add: cand_f_def str_int_def digits)

lemma signals_g: "emit_signals 0 (Suc 0) 2 cand_g
  = [live_file_signal (''g.bin'', ''/r/g.bin'', ''768.00'', ''0.75''),
     progress_update 100 ''g.bin | 2 of 2 | ~0s left'',
     eta_signal ''ETA: ~0s'']"
  unfolding One_nat_def[symmetric] emit_signals_def row_g percent_two remaining_two
  by (simp add: cand_g_def str_int_def digits)

lemma deliver_no_calls: "deliver (no_calls t) thr = thr"
  by (simp add: no_calls_def)

lemma wait_no_calls:
  "\<not> paused thr \<Longrightarrow> pause_wait (Suc fuel) no_calls t thr = Some (Suc t, thr)"
  using pause_wait_running[of thr no_calls t fuel] by (simp add: no_calls_def)

lemma run_two:
  "run (Suc fuel) no_calls (\<lambda>i. 0) fs_two thr_half
   = ([live_file_signal (''f.bin'', ''/r/f.bin'', ''512.00'', ''0.50''),
       progress_update 50 ''f.bin | 1 of 2 | ~0s left'',
       eta_signal ''ETA: ~0s'',
       live_file_signal (''g.bin'', ''/r/g.bin'', ''768.00'', ''0.75''),
       progress_update 100 ''g.bin | 2 of 2 | ~0s left'',
       eta_signal ''ETA: ~0s'',
       result_ready [(''f.bin'', ''/r/f.bin'', ''512.00'', ''0.50''),
                     (''g.bin'', ''/r/g.bin'', ''768.00'', ''0.75'')]], Returned)"
proof -
  have e: "enumerate_files no_calls fs_two thr_half = Some (2, thr_half, [cand_f, cand_g])"
    by (rule enumerate_two) (simp_all add: no_calls_def)
  have np: "\<not> paused thr_half" by (simp add: thr_half_fields)
  have nc: "\<not> cancel_requested (deliver (no_calls t) thr_half)" for t
    by (simp add: deliver_no_calls thr_half_fields)
  have w2: "pause_wait (Suc fuel) no_calls 2 thr_half = Some (3, thr_half)"
    using wait_no_calls[OF np, of fuel 2] by (simp del: pause_wait.simps)
  have w4: "pause_wait (Suc fuel) no_calls 4 thr_half = Some (5, thr_half)"
    using wait_no_calls[OF np, of fuel 4] by (simp del: pause_wait.simps)
  have l0: "emit_files (Suc fuel) no_calls (\<lambda>i. 0) 2 [] (Suc (Suc 0))
              (Suc 5, deliver (no_calls 5) thr_half) (([] @ [row_of cand_f]) @ [row_of cand_g])
            = ([], Finished [row_of cand_f, row_of cand_g])"
    by simp
  have l1: "emit_files (Suc fuel) no_calls (\<lambda>i. 0) 2 [cand_g] (Suc 0) (4, thr_half) ([] @ [row_of cand_f])
            = (emit_signals 0 (Suc 0) 2 cand_g @ [], Finished [row_of cand_f, row_of cand_g])"
    by (rule emit_files_step[OF w4 nc l0])
  have l1': "emit_files (Suc fuel) no_calls (\<lambda>i. 0) 2 [cand_g] (Suc 0)
               (Suc 3, deliver (no_calls 3) thr_half) ([] @ [row_of cand_f])
            = (emit_signals 0 (Suc 0) 2 cand_g @ [], Finished [row_of cand_f, row_of cand_g])"
    using l1 by (simp add: deliver_no_calls del: emit_files.simps pause_wait.simps)
  have l2: "emit_files (Suc fuel) no_calls (\<lambda>i. 0) 2 [cand_f, cand_g] 0 (2, thr_half) []
            = (emit_signals 0 0 2 cand_f @ emit_signals 0 (Suc 0) 2 cand_g @ [],
               Finished [row_of cand_f, row_of cand_g])"
    by (rule emit_files_step[OF w2 nc l1'])
  have r: "run (Suc fuel) no_calls (\<lambda>i. 0) fs_two thr_half
           = (case emit_files (Suc fuel) no_calls (\<lambda>i. 0) 2 [cand_f, cand_g] 0 (2, thr_half) [] of
                (sigs, Finished results) \<Rightarrow> (sigs @ [result_ready results], Returned)
              | (sigs, Stopped) \<Rightarrow> (sigs, Returned)
              | (sigs, Blocked) \<Rightarrow> (sigs, Waiting))"
    unfolding run_def e by (simp add: numeral_2_eq_2 del: emit_files.simps)
  show ?thesis
    unfolding r l2 by (simp add: signals_f signals_g row_f row_g)
qed

theorem emitted_files_exceed_threshold_witness:
  "live_file_signal (''g.bin'', ''/r/g.bin'', ''768.00'', ''0.75'')
     \<in> set (fst (run (Suc 0) no_calls (\<lambda>i. 0) fs_two thr_half))
   \<and> (\<exists>sz. getsize fs_two ''/r/g.bin'' = Some sz
         \<and> py_gt (fl (of_nat sz / 1024 ^ 3)) (threshold_gb thr_half)
         \<and> ''0.75'' = format_2f (fl (of_nat sz / 1024 ^ 3)))"
proof -
  have m: "live_file_signal (''g.bin'', ''/r/g.bin'', ''768.00'', ''0.75'')
             \<in> set (fst (run (Suc 0) no_calls (\<lambda>i. 0) fs_two thr_half))"
    unfolding run_two by simp
  from emitted_files_exceed_threshold[OF m] obtain sz where
    "getsize fs_two ''/r/g.bin'' = Some sz"
    "py_gt (fl (of_nat sz / 1024 ^ 3)) (threshold_gb thr_half)"
    "''0.75'' = format_2f (fl (of_nat sz / 1024 ^ 3))"
    by blast
  then show ?thesis using m by blast
qed

text \<open>
  A file of half a GiB and one byte passes the threshold 0.5; the row that is emitted for
  it carries the size text \<open>0.50\<close>, which is not greater than the threshold.
\<close>

theorem emitted_size_text_counterexample:
  "live_file_signal (''f.bin'', ''/r/f.bin'', ''512.00'', ''0.50'')
     \<in> set (fst (run (Suc 0) no_calls (\<lambda>i. 0) fs_two thr_half))
   \<and> threshold_gb thr_half = Fin (1 / 2)
   \<and> float_of_fixed ''0.50'' = Some (1 / 2)
   \<and> \<not> py_gt (1 / 2) (threshold_gb thr_half)"
proof -
  have m: "live_file_signal (''f.bin'', ''/r/f.bin'', ''512.00'', ''0.50'')
             \<in> set (fst (run (Suc 0) no_calls (\<lambda>i. 0) fs_two thr_half))"
    unfolding run_two by simp
  have f: "float_of_fixed ''0.50'' = Some (1 / 2)" by code_simp
  show ?thesis using m f by (simp add: thr_half_fields)
qed

theorem progress_monotone_witness:
  "result_ready [(''f.bin'', ''/r/f.bin'', ''512.00'', ''0.50''), (''g.bin'', ''/r/g.bin'', ''768.00'', ''0.75'')]
     \<in> set (fst (run (Suc 0) no_calls (\<lambda>i. 0) fs_two thr_half))
   \<and> percents (fst (run (Suc 0) no_calls (\<lambda>i. 0) fs_two thr_half)) = [50, 100]
   \<and> sorted (percents (fst (run (Suc 0) no_calls (\<lambda>i. 0) fs_two thr_half)))
   \<and> last (percents (fst (run (Suc 0) no_calls (\<lambda>i. 0) fs_two thr_half))) = 100"
proof -
  note t = progress_monotone[of "Suc 0" no_calls "\<lambda>i. 0" fs_two thr_half]
  have m: "result_ready [(''f.bin'', ''/r/f.bin'', ''512.00'', ''0.50''), (''g.bin'', ''/r/g.bin'', ''768.00'', ''0.75'')]
     \<in> set (fst (run (Suc 0) no_calls (\<lambda>i. 0) fs_two thr_half))"
    unfolding run_two by simp
  have p: "percents (fst (run (Suc 0) no_calls (\<lambda>i. 0) fs_two thr_half)) = [50, 100]"
    unfolding run_two by simp
  have s: "sorted (percents (fst (run (Suc 0) no_calls (\<lambda>i. 0) fs_two thr_half)))"
    by (rule conjunct1[OF t])
  have l: "last (percents (fst (run (Suc 0) no_calls (\<lambda>i. 0) fs_two thr_half))) = 100"
    using conjunct1[OF conjunct2[OF t]] m by blast
  show ?thesis using m p s l by blast
qed

lemma enumerate_two_pause_then_cancel:
  "enumerate_files pause_then_cancel fs_two thr_half = Some (2, thr_half, [cand_f, cand_g])"
  by (rule enumerate_two) (simp_all add: pause_then_cancel_def)

lemma run_two_emission:
  assumes "enumerate_files env fs_two thr_half = Some (2, thr_half, [cand_f, cand_g])"
  shows "run fuel env clock fs_two thr_half
           = (case emit_files fuel env clock 2 [cand_f, cand_g] 0 (2, thr_half) [] of
                (sigs, Finished results) \<Rightarrow> (sigs @ [result_ready results], Returned)
              | (sigs, Stopped) \<Rightarrow> (sigs, Returned)
              | (sigs, Blocked) \<Rightarrow> (sigs, Waiting))"
  unfolding run_def assms by (simp add: numeral_2_eq_2 del: emit_files.simps)

text \<open>
  Claim C2 at a failing input. Two files are candidates. \<open>pause\<close> is called before the
  first poll of the pause wait and \<open>cancel\<close> before the second, while the thread is paused;
  \<open>resume\<close> is never called. Whatever the number of polls allowed, the run emits nothing
  and is still waiting: the cancel request is not seen during the pause.
\<close>

theorem cancel_while_paused_not_honoured:
  "paused (deliver (pause_then_cancel 3) (deliver (pause_then_cancel 2) thr_half))
   \<and> cancel_requested (deliver (pause_then_cancel 3) (deliver (pause_then_cancel 2) thr_half))
   \<and> run fuel pause_then_cancel clock fs_two thr_half = ([], Waiting)
   \<and> cancelled \<notin> set (fst (run fuel pause_then_cancel clock fs_two thr_half))"
proof -
  have d2: "deliver (pause_then_cancel 2) thr_half = pause thr_half"
    by (simp add: pause_then_cancel_def deliver_def)
  have d3: "deliver (pause_then_cancel 3) (pause thr_half) = cancel (pause thr_half)"
    by (simp add: pause_then_cancel_def deliver_def)
  have p: "paused (pause thr_half)" by (simp add: pause_def)
  have flags: "paused (cancel (pause thr_half))" "cancel_requested (cancel (pause thr_half))"
    by (simp_all add: pause_def cancel_def)
  have nr: "\<forall>t' \<ge> 3. Resume \<notin> set (pause_then_cancel t')"
    by (simp add: pause_then_cancel_def)
  have w: "pause_wait fuel pause_then_cancel 2 thr_half = None"
  proof (cases fuel)
    case 0
    then show ?thesis by simp
  next
    case (Suc n)
    have "pause_wait n pause_then_cancel (Suc 2) (pause thr_half) = None"
      using pause_wait_blocked[OF p, of 3 pause_then_cancel n] nr by simp
    then show ?thesis unfolding Suc using p d2 by (simp add: Let_def)
  qed
  have "emit_files fuel pause_then_cancel clock 2 [cand_f, cand_g] 0 (2, thr_half) [] = ([], Blocked)"
    using w by (rule emit_files_block)
  then have r: "run fuel pause_then_cancel clock fs_two thr_half = ([], Waiting)"
    unfolding run_two_emission[OF enumerate_two_pause_then_cancel] by simp
  show ?thesis unfolding r d2 d3 using flags by simp
qed

lemma enumerate_two_cancel_and_pause:
  "enumerate_files cancel_and_pause_after_first fs_two thr_half = Some (2, thr_half, [cand_f, cand_g])"
  by (rule enumerate_two) (simp_all add: cancel_and_pause_after_first_def)

text \<open>
  Claim C5 at a failing input. Two files are candidates. After the first emission
  \<open>cancel\<close> and \<open>pause\<close> are called, and \<open>resume\<close> never is. Whatever the number of polls
  allowed, the stream holds the first row and its progress signals and no \<open>cancelled\<close>
  signal: the run is still in the pause wait.
\<close>

theorem cancel_after_first_while_paused:
  "run (Suc fuel) cancel_and_pause_after_first (\<lambda>i. 0) fs_two thr_half
     = ([live_file_signal (''f.bin'', ''/r/f.bin'', ''512.00'', ''0.50''),
         progress_update 50 ''f.bin | 1 of 2 | ~0s left'',
         eta_signal ''ETA: ~0s''], Waiting)
   \<and> cancelled \<notin> set (fst (run (Suc fuel) cancel_and_pause_after_first (\<lambda>i. 0) fs_two thr_half))"
proof -
  let ?env = cancel_and_pause_after_first
  have np: "\<not> paused thr_half" by (simp add: thr_half_fields)
  have d: "deliver (?env 2) thr_half = thr_half" "deliver (?env 3) thr_half = thr_half"
    by (simp_all add: cancel_and_pause_after_first_def)
  have w2: "pause_wait (Suc fuel) ?env 2 thr_half = Some (3, thr_half)"
    using pause_wait_running[OF np, of ?env 2 fuel] d
    by (simp add: cancel_and_pause_after_first_def del: pause_wait.simps)
  have nc: "\<not> cancel_requested (deliver (?env 3) thr_half)"
    unfolding d by (simp add: thr_half_fields)
  have d4: "deliver (?env 4) thr_half = pause (cancel thr_half)"
    by (simp add: cancel_and_pause_after_first_def deliver_def)
  have p: "paused (pause (cancel thr_half))" by (simp add: pause_def)
  have nr: "\<forall>t' \<ge> 5. Resume \<notin> set (?env t')"
    by (simp add: cancel_and_pause_after_first_def)
  have "pause_wait fuel ?env (Suc 4) (pause (cancel thr_half)) = None"
    using pause_wait_blocked[OF p, of 5 ?env fuel] nr by simp
  then have w4: "pause_wait (Suc fuel) ?env 4 thr_half = None"
    using p d4 by (simp add: Let_def)
  have l1: "emit_files (Suc fuel) ?env (\<lambda>i. 0) 2 [cand_g] (Suc 0) (4, thr_half) ([] @ [row_of cand_f])
            = ([], Blocked)"
    using w4 by (rule emit_files_block)
  have l1': "emit_files (Suc fuel) ?env (\<lambda>i. 0) 2 [cand_g] (Suc 0)
               (Suc 3, deliver (?env 3) thr_half) ([] @ [row_of cand_f]) = ([], Blocked)"
    using l1 unfolding d by (simp del: emit_files.simps pause_wait.simps)
  have l2: "emit_files (Suc fuel) ?env (\<lambda>i. 0) 2 [cand_f, cand_g] 0 (2, thr_half) []
            = (emit_signals 0 0 2 cand_f @ [], Blocked)"
    by (rule emit_files_step[OF w2 nc l1'])
  have r: "run (Suc fuel) ?env (\<lambda>i. 0) fs_two thr_half
     = ([live_file_signal (''f.bin'', ''/r/f.bin'', ''512.00'', ''0.50''),
         progress_update 50 ''f.bin | 1 of 2 | ~0s left'',
         eta_signal ''ETA: ~0s''], Waiting)"
    unfolding run_two_emission[OF enumerate_two_cancel_and_pause] l2 by (simp add: signals_f)
  show ?thesis unfolding r by simp
qed

lemma scan_filenames_unpaused:
  assumes "scan_filenames env fs dirpath filenames (t, thr, acc) = Some (t', thr', acc')"
    and "\<not> paused thr" "\<forall>t'. Pause \<notin> set (env t')"
  shows "\<not> paused thr'"
  using assms(1,2)
proof (induction filenames arbitrary: t thr acc)
  case Nil
  then show ?case by simp
next
  case (Cons f filenames)
  let ?thr = "deliver (env t) thr"
  from Cons.prems(1) have
    s: "scan_filenames env fs dirpath filenames (Suc t, ?thr, examine fs ?thr dirpath f acc) = Some (t', thr', acc')"
    by (auto simp: Let_def split: if_splits)
  have "\<not> paused ?thr" using Cons.prems(2) assms(3) by (intro deliver_unpaused_keep) simp_all
  from Cons.IH[OF s this] show ?case .
qed

lemma scan_walk_unpaused:
  assumes "scan_walk env fs dirs (t, thr, acc) = Some (t', thr', acc')"
    and "\<not> paused thr" "\<forall>t'. Pause \<notin> set (env t')"
  shows "\<not> paused thr'"
  using assms(1,2)
proof (induction dirs arbitrary: t thr acc)
  case Nil
  then show ?case by simp
next
  case (Cons d dirs)
  obtain dirpath dirnames filenames where d: "d = (dirpath, dirnames, filenames)" by (cases d)
  from Cons.prems(1) obtain t1 thr1 acc1 where
    s: "scan_filenames env fs dirpath filenames (t, thr, acc) = Some (t1, thr1, acc1)"
    and w: "scan_walk env fs dirs (t1, thr1, acc1) = Some (t', thr', acc')"
    unfolding d by (auto split: option.splits)
  have "\<not> paused thr1" using scan_filenames_unpaused[OF s Cons.prems(2) assms(3)] .
  from Cons.IH[OF w this] show ?case .
qed

text \<open>
  The part of claim C5 that holds: in a run without pauses, a cancel request that arrives
  after \<open>N\<close> of the emissions ends the stream with the signals of the first \<open>N\<close>
  candidates and \<open>cancelled\<close>; there are exactly \<open>N\<close> rows and no \<open>result_ready\<close>.
\<close>

lemma run_cancel_after_emissions:
  assumes e: "enumerate_files env fs thr = Some (t, thr1, files)"
    and "\<not> paused thr" "\<forall>t'. Pause \<notin> set (env t')" "\<not> cancel_requested thr"
    and "\<forall>j < 2 * N. Cancel \<notin> set (env (t + j))"
    and "Cancel \<in> set (env (t + 2 * N)) \<or> Cancel \<in> set (env (t + 2 * N + 1))"
    and "N < length files"
  shows "run (Suc fuel) env clock fs thr
           = (all_signals clock (length files) 0 (take N files) @ [cancelled], Returned)"
    and "live_rows (fst (run (Suc fuel) env clock fs thr)) = map row_of (take N files)"
    and "result_ready rs \<notin> set (fst (run (Suc fuel) env clock fs thr))"
proof -
  have np: "\<not> paused thr1"
    using scan_walk_unpaused[OF e[unfolded enumerate_files_def] assms(2,3)] .
  have nc: "\<not> cancel_requested thr1"
    using scan_walk_Some[OF e[unfolded enumerate_files_def]] assms(4) by simp
  have ne: "length files \<noteq> 0" using assms(7) by auto
  have l: "emit_files (Suc fuel) env clock (length files) files 0 (t, thr1) []
           = (all_signals clock (length files) 0 (take N files) @ [cancelled], Stopped)"
    by (rule cancel_after_emissions[OF np assms(3) nc assms(5,6,7)])
  show r: "run (Suc fuel) env clock fs thr
           = (all_signals clock (length files) 0 (take N files) @ [cancelled], Returned)"
    unfolding run_def e using ne by (simp add: Let_def l del: emit_files.simps)
  show "live_rows (fst (run (Suc fuel) env clock fs thr)) = map row_of (take N files)"
    unfolding r by (simp add: live_rows_append live_rows_all_signals)
  show "result_ready rs \<notin> set (fst (run (Suc fuel) env clock fs thr))"
    unfolding r using result_ready_all_signals by simp
qed

end
